theory Spec2Isabelle
  imports Complex_Main "HOL-Library.AList"
begin

section \<open>Exceptions, numbers and the random stream\<close>

text \<open>
  The model covers \<^verbatim>\<open>circuit.py\<close>: qubits, gates, the three sampler coroutines, the
  measurement gate and the circuit operations \<^verbatim>\<open>add_gate\<close>, \<^verbatim>\<open>add_waiting_gates\<close> and
  \<^verbatim>\<open>order\<close>. Python floats are read as real numbers (no rounding, no NaN); a division
  by zero raises, as it does for Python floats. Every exception the code can raise is a
  value of \<open>error\<close>. \<open>ConfigurationError\<close> is the exception the specification names; no
  statement of \<^verbatim>\<open>circuit.py\<close> raises it. \<open>Unmodelled\<close> is not an exception: it is the
  answer to a constructor call that makes a gate the model has no value for (a gate whose
  time is not a number, or whose qubit is not a name).
\<close>

datatype error =
  KeyError | IndexError | TypeError | AttributeError | ZeroDivisionError | StopIteration
  | ConfigurationError | Unmodelled

text \<open>
  \<^verbatim>\<open>np.random.RandomState(seed)\<close> is numpy's generator, outside the repository. It is a
  parameter \<open>mt\<close> of the model: \<open>mt seed k\<close> is the \<open>k\<close>-th number that a generator
  seeded with \<open>seed\<close> returns from \<^verbatim>\<open>random_sample()\<close>. A generator object is its
  stream and the number of draws made so far.
\<close>

record rng =
  stream :: "nat \<Rightarrow> real"
  pos :: nat

definition RandomState :: "(nat \<Rightarrow> nat \<Rightarrow> real) \<Rightarrow> nat \<Rightarrow> rng" where
  "RandomState mt seed = \<lparr>stream = mt seed, pos = 0\<rparr>"

definition random_sample :: "rng \<Rightarrow> real \<times> rng" where
  "random_sample g = (stream g (pos g), g\<lparr>pos := Suc (pos g)\<rparr>)"

text \<open>A stream for examples: every draw of every seed is \<open>r\<close>.\<close>

definition fixed_stream :: "real \<Rightarrow> nat \<Rightarrow> nat \<Rightarrow> real" where
  "fixed_stream r seed k = r"

section \<open>Sampler coroutines\<close>

text \<open>
  A Python generator object is a process that is resumed with a sent value
  (\<^verbatim>\<open>next(g)\<close> sends \<^verbatim>\<open>None\<close>) and either raises or suspends at a \<^verbatim>\<open>yield\<close> with
  the yielded value, ready to be resumed again. The values sent to a sampler are pairs
  \<open>(p0, p1)\<close>, the values it yields are triples (or \<^verbatim>\<open>None\<close> for a bare \<^verbatim>\<open>yield\<close>).
  A generator that raised is finished: every later resumption raises \<^verbatim>\<open>StopIteration\<close>.
\<close>

type_synonym triple = "int \<times> int \<times> real"

codatatype sampler =
  Sampler (resume: "(real \<times> real) option \<Rightarrow> error + (triple option \<times> sampler)")

primcorec exhausted :: sampler where
  "resume exhausted = (\<lambda>v. Inl StopIteration)"

text \<open>
  \<^verbatim>\<open>def selection_sampler(result=0): while True: yield result, result, 1\<close>.
  \<open>selection_loop\<close> is the generator suspended at its \<^verbatim>\<open>yield\<close>; \<open>selection_sampler\<close> is the
  generator just created, which accepts only \<^verbatim>\<open>None\<close>.
\<close>

primcorec selection_loop :: "int \<Rightarrow> sampler" where
  "resume (selection_loop result) = (\<lambda>v. Inr (Some (result, result, 1), selection_loop result))"

primcorec selection_sampler :: "int \<Rightarrow> sampler" where
  "resume (selection_sampler result) = (\<lambda>v. case v of
       Some p \<Rightarrow> Inl TypeError
     | None \<Rightarrow> Inr (Some (result, result, 1), selection_loop result))"

text \<open>
  \<^verbatim>\<open>uniform_sampler(seed=42)\<close>. \<open>uniform_loop g\<close> is the generator suspended at one of its
  \<^verbatim>\<open>p0, p1 = yield ...\<close>, holding the generator \<open>g\<close>: on a pair it draws, compares and
  yields; unpacking \<^verbatim>\<open>None\<close> raises. The first resumption creates the generator and stops
  at the bare \<^verbatim>\<open>yield\<close>.
\<close>

primcorec uniform_loop :: "rng \<Rightarrow> sampler" where
  "resume (uniform_loop g) = (\<lambda>v. case v of
       None \<Rightarrow> Inl TypeError
     | Some (p0, p1) \<Rightarrow>
        (let (r, g1) = random_sample g in
         if p0 + p1 = 0 then Inl ZeroDivisionError
         else if r < p0 / (p0 + p1) then Inr (Some (0, 0, 1), uniform_loop g1)
         else Inr (Some (1, 1, 1), uniform_loop g1)))"

primcorec uniform_sampler :: "(nat \<Rightarrow> nat \<Rightarrow> real) \<Rightarrow> nat \<Rightarrow> sampler" where
  "resume (uniform_sampler mt seed) = (\<lambda>v. case v of
       Some p \<Rightarrow> Inl TypeError
     | None \<Rightarrow> Inr (None, uniform_loop (RandomState mt seed)))"

text \<open>
  \<^verbatim>\<open>uniform_noisy_sampler(readout_error, seed=42)\<close>: two draws for each pair; the value
  yielded is \<^verbatim>\<open>proj, decl, prob\<close>, in this order.
\<close>

primcorec uniform_noisy_loop :: "real \<Rightarrow> rng \<Rightarrow> sampler" where
  "resume (uniform_noisy_loop readout_error g) = (\<lambda>v. case v of
       None \<Rightarrow> Inl TypeError
     | Some (p0, p1) \<Rightarrow>
        (let (r, g1) = random_sample g in
         if p0 + p1 = 0 then Inl ZeroDivisionError
         else
           let proj = (if r < p0 / (p0 + p1) then 0 else 1);
               (r', g2) = random_sample g1;
               decl = (if r' < readout_error then 1 - proj else proj);
               prob = (if r' < readout_error then readout_error else 1 - readout_error)
           in Inr (Some (proj, decl, prob), uniform_noisy_loop readout_error g2)))"

primcorec uniform_noisy_sampler :: "(nat \<Rightarrow> nat \<Rightarrow> real) \<Rightarrow> real \<Rightarrow> nat \<Rightarrow> sampler" where
  "resume (uniform_noisy_sampler mt readout_error seed) = (\<lambda>v. case v of
       Some p \<Rightarrow> Inl TypeError
     | None \<Rightarrow> Inr (None, uniform_noisy_loop readout_error (RandomState mt seed)))"

text \<open>\<^verbatim>\<open>next(sampler)\<close> with the yielded value dropped, as \<^verbatim>\<open>Measurement.__init__\<close> calls it.\<close>

definition prime :: "sampler \<Rightarrow> error + sampler" where
  "prime s = (case resume s None of Inl e \<Rightarrow> Inl e | Inr (y, s') \<Rightarrow> Inr s')"

text \<open>
  \<^verbatim>\<open>sampler.send((p0, p1))\<close> for each pair of a list in turn, collecting what each call
  returns or raises. The sampler is one that has been started (primed, as every sampler of
  a measurement is): an exception then ends the generator, and every later call raises
  \<^verbatim>\<open>StopIteration\<close>.
\<close>

fun send_all :: "sampler \<Rightarrow> (real \<times> real) list \<Rightarrow> (error + triple option) list" where
  "send_all s [] = []"
| "send_all s (p # ps) =
     (case resume s (Some p) of
        Inl e \<Rightarrow> Inl e # send_all exhausted ps
      | Inr (y, s') \<Rightarrow> Inr y # send_all s' ps)"

section \<open>Qubits and gates\<close>

text \<open>\<^verbatim>\<open>class Qubit\<close>: the coherence times are clamped at \<open>1e-10\<close>; \<^verbatim>\<open>str(qubit)\<close> is its name.\<close>

record qubit =
  name :: string
  t1 :: real
  t2 :: real

definition Qubit :: "string \<Rightarrow> real \<Rightarrow> real \<Rightarrow> qubit" where
  "Qubit n a b = \<lparr>name = n, t1 = max a (1 / 10 ^ 10), t2 = max b (1 / 10 ^ 10)\<rparr>"

text \<open>
  A gate object: the attributes every \<^verbatim>\<open>Gate\<close> has, the method name and parameters the
  unitary and damping gates set, and the attributes of its class. A measurement has no
  \<^verbatim>\<open>method_name\<close>. The plot label is left out (plotting is not modelled). A gate is a
  value here; where the code writes into gate objects that the circuit may refer to more
  than once (\<^verbatim>\<open>order\<close>), the circuit is taken with references into a store.
\<close>

datatype gate_class =
    Hadamard
  | CPhase
  | AmpPhDamp (duration: real) (damp_t1: real) (damp_t2: real)
  | Measurement (sampler: sampler) (measurements: "int list")

record gate =
  is_measurement :: bool
  time :: real
  involved_qubits :: "string list"
  annotation :: "string option"
  method_name :: "string option"
  method_params :: "(string \<times> real) list"
  cls :: gate_class

definition involves_qubit :: "gate \<Rightarrow> string \<Rightarrow> bool" where
  "involves_qubit g qb = (qb \<in> set (involved_qubits g))"

definition Hadamard_init :: "string \<Rightarrow> real \<Rightarrow> gate" where
  "Hadamard_init qb t =
     \<lparr>is_measurement = False, time = t, involved_qubits = [qb], annotation = None,
      method_name = Some ''hadamard'', method_params = [], cls = Hadamard\<rparr>"

definition CPhase_init :: "string \<Rightarrow> string \<Rightarrow> real \<Rightarrow> gate" where
  "CPhase_init bit0 bit1 t =
     \<lparr>is_measurement = False, time = t, involved_qubits = [bit0, bit1], annotation = None,
      method_name = Some ''cphase'', method_params = [], cls = CPhase\<rparr>"

text \<open>\<^verbatim>\<open>AmpPhDamp.__init__\<close> divides by \<open>t1\<close> and by \<open>t2\<close>.\<close>

definition AmpPhDamp_init :: "string \<Rightarrow> real \<Rightarrow> real \<Rightarrow> real \<Rightarrow> real \<Rightarrow> error + gate" where
  "AmpPhDamp_init qb t d a b =
     (if a = 0 \<or> b = 0 then Inl ZeroDivisionError
      else Inr \<lparr>is_measurement = False, time = t, involved_qubits = [qb], annotation = None,
                method_name = Some ''amp_ph_damping'',
                method_params = [(''gamma'', 1 - exp (- d / a)), (''lamda'', 1 - exp (- d / b))],
                cls = AmpPhDamp d a b\<rparr>)"

text \<open>
  \<^verbatim>\<open>Measurement.__init__(bit, time, sampler)\<close>: a sampler that is given is primed; without
  one, \<^verbatim>\<open>uniform_sampler()\<close> (default seed 42) is created and primed. A generator object
  is never false, so \<^verbatim>\<open>if sampler\<close> tests for \<^verbatim>\<open>None\<close>.
\<close>

definition Measurement_init ::
  "(nat \<Rightarrow> nat \<Rightarrow> real) \<Rightarrow> string \<Rightarrow> real \<Rightarrow> sampler option \<Rightarrow> error + gate" where
  "Measurement_init mt qb t smp =
     (case prime (case smp of Some s \<Rightarrow> s | None \<Rightarrow> uniform_sampler mt 42) of
        Inl e \<Rightarrow> Inl e
      | Inr s' \<Rightarrow>
          Inr \<lparr>is_measurement = True, time = t, involved_qubits = [qb], annotation = None,
               method_name = None, method_params = [], cls = Measurement s' []\<rparr>)"

section \<open>Replaying a measurement\<close>

text \<open>
  The quantum state \<^verbatim>\<open>sdm\<close> belongs to an engine outside the repository. The model takes
  it as any record with a field \<open>classical_probability\<close>, and the engine's two methods as
  parameters: \<open>peak\<close> for \<^verbatim>\<open>sdm.peak_measurement(bit)\<close>, which returns \<open>(p0, p1)\<close> and
  leaves the state alone, and \<open>project\<close> for \<^verbatim>\<open>sdm.project_measurement(bit, outcome)\<close>,
  which returns the state after the projection.
\<close>

record sdm =
  classical_probability :: real

text \<open>
  \<^verbatim>\<open>Measurement.apply_to(sdm)\<close>, returning the gate and the state after the call.
  Reading \<^verbatim>\<open>involved_qubits[0]\<close> of an empty list, and the sampler attribute of a gate
  that has none, raise; so does unpacking \<^verbatim>\<open>None\<close> when the sampler yields no triple.
\<close>

definition Measurement_apply_to ::
  "('a sdm_scheme \<Rightarrow> string \<Rightarrow> real \<times> real) \<Rightarrow> ('a sdm_scheme \<Rightarrow> string \<Rightarrow> int \<Rightarrow> 'a sdm_scheme)
   \<Rightarrow> gate \<Rightarrow> 'a sdm_scheme \<Rightarrow> error + gate \<times> 'a sdm_scheme" where
  "Measurement_apply_to peak project g st =
     (case involved_qubits g of
        [] \<Rightarrow> Inl IndexError
      | qb # _ \<Rightarrow>
          (let (p0, p1) = peak st qb in
           case cls g of
             Measurement s ms \<Rightarrow>
               (case resume s (Some (p0, p1)) of
                  Inl e \<Rightarrow> Inl e
                | Inr (None, s') \<Rightarrow> Inl TypeError
                | Inr (Some (declare, proj, cond_prob), s') \<Rightarrow>
                    (let g' = g\<lparr>cls := Measurement s' (ms @ [declare])\<rparr>;
                         st' = project st qb proj
                     in Inr (g', st'\<lparr>classical_probability :=
                                      classical_probability st' * cond_prob\<rparr>)))
           | _ \<Rightarrow> Inl AttributeError))"

text \<open>
  The gate applied once to each state of a list in turn (one run after the other), the
  gate carried from one call to the next; the list of states after each call is
  returned with it.
\<close>

fun Measurement_apply_each ::
  "('a sdm_scheme \<Rightarrow> string \<Rightarrow> real \<times> real) \<Rightarrow> ('a sdm_scheme \<Rightarrow> string \<Rightarrow> int \<Rightarrow> 'a sdm_scheme)
   \<Rightarrow> gate \<Rightarrow> 'a sdm_scheme list \<Rightarrow> error + gate \<times> 'a sdm_scheme list" where
  "Measurement_apply_each peak project g [] = Inr (g, [])"
| "Measurement_apply_each peak project g (st # sts) =
     (case Measurement_apply_to peak project g st of
        Inl e \<Rightarrow> Inl e
      | Inr (g', st') \<Rightarrow>
          (case Measurement_apply_each peak project g' sts of
             Inl e \<Rightarrow> Inl e
           | Inr (g'', sts') \<Rightarrow> Inr (g'', st' # sts')))"

section \<open>The circuit\<close>

record circuit =
  qubits :: "qubit list"
  gates :: "gate list"
  title :: string

definition Circuit :: "string \<Rightarrow> circuit" where
  "Circuit ttl = \<lparr>qubits = [], gates = [], title = ttl\<rparr>"

text \<open>
  \<^verbatim>\<open>add_qubit\<close> takes a \<^verbatim>\<open>Qubit\<close> object or the arguments to make one, and returns the
  qubit added with the circuit.
\<close>

datatype qubit_args = A_Qubit qubit | Qubit_args string real real

definition add_qubit :: "circuit \<Rightarrow> qubit_args \<Rightarrow> qubit \<times> circuit" where
  "add_qubit c a =
     (let qb = (case a of A_Qubit q \<Rightarrow> q | Qubit_args n x y \<Rightarrow> Qubit n x y)
      in (qb, c\<lparr>qubits := qubits c @ [qb]\<rparr>))"

text \<open>
  The registry \<^verbatim>\<open>Circuit.gate_classes\<close> maps a kind string to a gate class. The first
  argument of \<^verbatim>\<open>add_gate\<close> is a gate class, a string, a gate object, or anything else;
  the other arguments (positional) are passed to the class.
\<close>

datatype class_name = Hadamard_class | CPhase_class | AmpPhDamp_class | Measurement_class

datatype pyval = Str string | Num real | Smp sampler | PyNone

datatype gate_type = Class class_name | Kind string | Instance gate | Other

definition gate_classes :: "string \<rightharpoonup> class_name" where
  "gate_classes = map_of
     [(''cphase'', CPhase_class), (''hadamard'', Hadamard_class),
      (''amp_ph_damping'', AmpPhDamp_class), (''measurement'', Measurement_class)]"

text \<open>
  The number of arguments that \<^verbatim>\<open>__init__\<close> of each class takes after \<^verbatim>\<open>self\<close>. No
  parameter has a default, the \<^verbatim>\<open>sampler\<close> of \<^verbatim>\<open>Measurement.__init__(self, bit, time,
  sampler)\<close> included: a call with another number of arguments raises \<^verbatim>\<open>TypeError\<close>.
\<close>

definition arity :: "class_name \<Rightarrow> nat" where
  "arity k = (case k of
                Hadamard_class \<Rightarrow> 2
              | CPhase_class \<Rightarrow> 3
              | AmpPhDamp_class \<Rightarrow> 5
              | Measurement_class \<Rightarrow> 3)"

text \<open>
  Calling a gate class. Python checks the number of the arguments, not their kinds. The
  gates of the model hold names as qubits and numbers as times, durations and coherence
  times, so a call with another value in such a place is \<open>Unmodelled\<close>. The sampler of a
  measurement can be any value: \<^verbatim>\<open>if sampler\<close> takes \<^verbatim>\<open>None\<close>, zero and the empty string
  as false and installs the default sampler; a number other than zero or a string that is
  not empty is installed, and priming it raises \<^verbatim>\<open>TypeError\<close>.
\<close>

definition construct :: "(nat \<Rightarrow> nat \<Rightarrow> real) \<Rightarrow> class_name \<Rightarrow> pyval list \<Rightarrow> error + gate" where
  "construct mt k args =
     (if length args \<noteq> arity k then Inl TypeError
      else case k of
        Hadamard_class \<Rightarrow>
          (case args of [Str qb, Num t] \<Rightarrow> Inr (Hadamard_init qb t) | _ \<Rightarrow> Inl Unmodelled)
      | CPhase_class \<Rightarrow>
          (case args of [Str qb0, Str qb1, Num t] \<Rightarrow> Inr (CPhase_init qb0 qb1 t)
           | _ \<Rightarrow> Inl Unmodelled)
      | AmpPhDamp_class \<Rightarrow>
          (case args of [Str qb, Num t, Num d, Num a, Num b] \<Rightarrow> AmpPhDamp_init qb t d a b
           | _ \<Rightarrow> Inl Unmodelled)
      | Measurement_class \<Rightarrow>
          (case args of
             [Str qb, Num t, Smp s] \<Rightarrow> Measurement_init mt qb t (Some s)
           | [Str qb, Num t, PyNone] \<Rightarrow> Measurement_init mt qb t None
           | [Str qb, Num t, Num x] \<Rightarrow>
               (if x = 0 then Measurement_init mt qb t None else Inl TypeError)
           | [Str qb, Num t, Str x] \<Rightarrow>
               (if x = [] then Measurement_init mt qb t None else Inl TypeError)
           | _ \<Rightarrow> Inl Unmodelled))"

text \<open>\<^verbatim>\<open>return self.gates[-1]\<close>, which raises on an empty list.\<close>

definition return_last :: "circuit \<Rightarrow> error + gate \<times> circuit" where
  "return_last c = (case gates c of [] \<Rightarrow> Inl IndexError | g # gs \<Rightarrow> Inr (last (gates c), c))"

text \<open>\<^verbatim>\<open>add_gate\<close> called with a gate object: the third branch, then the return.\<close>

definition add_gate_instance :: "circuit \<Rightarrow> gate \<Rightarrow> error + gate \<times> circuit" where
  "add_gate_instance c g = return_last (c\<lparr>gates := gates c @ [g]\<rparr>)"

definition add_gate ::
  "(nat \<Rightarrow> nat \<Rightarrow> real) \<Rightarrow> circuit \<Rightarrow> gate_type \<Rightarrow> pyval list \<Rightarrow> error + gate \<times> circuit" where
  "add_gate mt c gt args =
     (case gt of
        Class k \<Rightarrow>
          (case construct mt k args of
             Inl e \<Rightarrow> Inl e
           | Inr g \<Rightarrow>
               (case add_gate_instance c g of
                  Inl e \<Rightarrow> Inl e
                | Inr (r, c') \<Rightarrow> return_last c'))
      | Kind k \<Rightarrow>
          (case gate_classes k of
             None \<Rightarrow> Inl KeyError
           | Some cl \<Rightarrow>
               (case construct mt cl args of
                  Inl e \<Rightarrow> Inl e
                | Inr g \<Rightarrow> return_last (c\<lparr>gates := gates c @ [g]\<rparr>)))
      | Instance g \<Rightarrow> add_gate_instance c g
      | Other \<Rightarrow> return_last c)"

section \<open>Idle-interval synthesis\<close>

text \<open>
  \<^verbatim>\<open>self.add_gate(AmpPhDamp(str(b), t, d, b.t1, b.t2))\<close>, the returned gate dropped.
\<close>

definition add_damping :: "circuit \<Rightarrow> qubit \<Rightarrow> real \<Rightarrow> real \<Rightarrow> error + circuit" where
  "add_damping c b t d =
     (case AmpPhDamp_init (name b) t d (t1 b) (t2 b) of
        Inl e \<Rightarrow> Inl e
      | Inr g \<Rightarrow>
          (case add_gate_instance c g of
             Inl e \<Rightarrow> Inl e
           | Inr (r, c') \<Rightarrow> Inr c'))"

text \<open>The loop over \<^verbatim>\<open>zip(gts[:-1], gts[1:])\<close>.\<close>

fun add_between :: "circuit \<Rightarrow> qubit \<Rightarrow> (gate \<times> gate) list \<Rightarrow> error + circuit" where
  "add_between c b [] = Inr c"
| "add_between c b ((g1, g2) # ps) =
     (case add_damping c b ((time g1 + time g2) / 2) (time g2 - time g1) of
        Inl e \<Rightarrow> Inl e
      | Inr c' \<Rightarrow> add_between c' b ps)"

text \<open>The body of the loop over the qubits, for the qubit \<open>b\<close>.\<close>

definition add_waiting_qubit :: "gate list \<Rightarrow> real \<Rightarrow> real \<Rightarrow> circuit \<Rightarrow> qubit \<Rightarrow> error + circuit" where
  "add_waiting_qubit all_gates tmin tmax c b =
     (let gts = filter (\<lambda>g. involves_qubit g (name b) \<and> tmin \<le> time g \<and> time g \<le> tmax) all_gates
      in if gts = [] then add_damping c b ((tmax + tmin) / 2) (tmax - tmin)
         else
           (case (if time (hd gts) - tmin > 1 / 10 ^ 6
                  then add_damping c b ((time (hd gts) + tmin) / 2) (time (hd gts) - tmin)
                  else Inr c) of
              Inl e \<Rightarrow> Inl e
            | Inr c1 \<Rightarrow>
               (case (if tmax - time (last gts) > 1 / 10 ^ 6
                      then add_damping c1 b ((time (last gts) + tmax) / 2) (tmax - time (last gts))
                      else Inr c1) of
                  Inl e \<Rightarrow> Inl e
                | Inr c2 \<Rightarrow> add_between c2 b (zip (butlast gts) (tl gts)))))"

fun add_waiting_loop :: "gate list \<Rightarrow> real \<Rightarrow> real \<Rightarrow> circuit \<Rightarrow> qubit list \<Rightarrow> error + circuit" where
  "add_waiting_loop all_gates tmin tmax c [] = Inr c"
| "add_waiting_loop all_gates tmin tmax c (b # bs) =
     (case add_waiting_qubit all_gates tmin tmax c b of
        Inl e \<Rightarrow> Inl e
      | Inr c' \<Rightarrow> add_waiting_loop all_gates tmin tmax c' bs)"

text \<open>
  \<^verbatim>\<open>add_waiting_gates(tmin=None, tmax=None)\<close>. \<^verbatim>\<open>sorted\<close> is stable, as \<open>sort_key\<close> is. The
  list \<^verbatim>\<open>all_gates\<close> is made once, before any gate is added; the loop runs over
  \<^verbatim>\<open>self.qubits\<close>, which it does not change.
\<close>

definition add_waiting_gates :: "circuit \<Rightarrow> real option \<Rightarrow> real option \<Rightarrow> error + circuit" where
  "add_waiting_gates c tmin tmax =
     (let all_gates = sort_key time (gates c)
      in if all_gates = [] \<and> (tmin = None \<or> tmax = None) then Inr c
         else
           (case (case tmin of
                    None \<Rightarrow> (case all_gates of [] \<Rightarrow> Inl IndexError | g # gs \<Rightarrow> Inr (time g))
                  | Some t \<Rightarrow> Inr t) of
              Inl e \<Rightarrow> Inl e
            | Inr lo \<Rightarrow>
               (case (case tmax of
                        None \<Rightarrow> (case all_gates of [] \<Rightarrow> Inl IndexError
                                 | g # gs \<Rightarrow> Inr (time (last all_gates)))
                      | Some t \<Rightarrow> Inr t) of
                  Inl e \<Rightarrow> Inl e
                | Inr hi \<Rightarrow> add_waiting_loop all_gates lo hi c (qubits c))))"

section \<open>What the synthesis is to produce\<close>

text \<open>
  The definitions of this section follow the specification's words, for comparison with
  \<open>add_waiting_gates\<close>. A decoherence channel of a qubit over a gap from \<open>lo\<close> to \<open>hi\<close>
  is the damping gate on that qubit, with the qubit's coherence times, centered at the
  midpoint of the gap, its duration the length of the gap.
\<close>

definition damping_gate :: "qubit \<Rightarrow> real \<Rightarrow> real \<Rightarrow> gate" where
  "damping_gate b t d =
     \<lparr>is_measurement = False, time = t, involved_qubits = [name b], annotation = None,
      method_name = Some ''amp_ph_damping'',
      method_params = [(''gamma'', 1 - exp (- d / t1 b)), (''lamda'', 1 - exp (- d / t2 b))],
      cls = AmpPhDamp d (t1 b) (t2 b)\<rparr>"

definition channel :: "qubit \<Rightarrow> real \<Rightarrow> real \<Rightarrow> gate" where
  "channel b lo hi = damping_gate b ((lo + hi) / 2) (hi - lo)"

text \<open>
  The timestamps of the operations of a qubit inside the window, in order of time (among
  equal times, in the order of the gate collection).
\<close>

definition window_times :: "gate list \<Rightarrow> real \<Rightarrow> real \<Rightarrow> qubit \<Rightarrow> real list" where
  "window_times gs lo hi b =
     map time (filter (\<lambda>g. involves_qubit g (name b) \<and> lo \<le> time g \<and> time g \<le> hi)
                 (sort_key time gs))"

text \<open>
  The channels of one qubit: one over the whole window when the qubit has no operation in
  it; otherwise one over the initial gap and one over the final gap where the gap exceeds
  \<open>1e-6\<close>, and one for every two consecutive operations.
\<close>

definition idle_channels :: "gate list \<Rightarrow> real \<Rightarrow> real \<Rightarrow> qubit \<Rightarrow> gate list" where
  "idle_channels gs lo hi b =
     (let ts = window_times gs lo hi b
      in if ts = [] then [channel b lo hi]
         else (if hd ts - lo > 1 / 10 ^ 6 then [channel b lo (hd ts)] else [])
            @ (if hi - last ts > 1 / 10 ^ 6 then [channel b (last ts) hi] else [])
            @ map (\<lambda>i. channel b (ts ! i) (ts ! Suc i)) [0..<length ts - 1])"

text \<open>A window bound that is omitted is the least, or the greatest, timestamp of the gates.\<close>

definition default_tmin :: "circuit \<Rightarrow> real option \<Rightarrow> real" where
  "default_tmin c tmin = (case tmin of None \<Rightarrow> Min (time ` set (gates c)) | Some t \<Rightarrow> t)"

definition default_tmax :: "circuit \<Rightarrow> real option \<Rightarrow> real" where
  "default_tmax c tmax = (case tmax of None \<Rightarrow> Max (time ` set (gates c)) | Some t \<Rightarrow> t)"

text \<open>
  A qubit whose coherence times are not zero, as every qubit made by \<^verbatim>\<open>Qubit(...)\<close> is:
  the damping parameters of its channels are defined.
\<close>

definition coherent :: "qubit \<Rightarrow> bool" where
  "coherent b = (t1 b \<noteq> 0 \<and> t2 b \<noteq> 0)"

text \<open>
  The circuit of the specification's end-to-end example: qubits \<open>a\<close> and \<open>b\<close> with
  coherence times 1000, a single-qubit gate on \<open>a\<close> at 0, a two-qubit gate on \<open>a\<close> and \<open>b\<close>
  at 10, and a measurement of \<open>a\<close> at 20 with the fixed-selection sampler of result 1.
\<close>

definition example_circuit :: circuit where
  "example_circuit =
     \<lparr>qubits = [Qubit ''a'' 1000 1000, Qubit ''b'' 1000 1000],
      gates = [Hadamard_init ''a'' 0, CPhase_init ''a'' ''b'' 10,
               \<lparr>is_measurement = True, time = 20, involved_qubits = [''a''], annotation = None,
                method_name = None, method_params = [], cls = Measurement (selection_loop 1) []\<rparr>],
      title = ''example''\<rparr>"

section \<open>Gaps, coverage and overlap\<close>







section \<open>Ordering\<close>

text \<open>
  \<^verbatim>\<open>order()\<close> writes into gate objects that the list \<^verbatim>\<open>self.gates\<close> refers to, and one
  gate object can be in the list more than once. So the circuit is taken here with its
  references: a gate object is an address, the store \<open>h\<close> gives the gate at each address,
  and the circuit's \<^verbatim>\<open>gates\<close> is a list of addresses. \<open>deref\<close> is the circuit by value,
  as the other operations see it.
\<close>

record circuit_refs =
  ref_qubits :: "qubit list"
  gate_refs :: "nat list"
  ref_title :: string

definition deref :: "(nat \<Rightarrow> gate) \<Rightarrow> circuit_refs \<Rightarrow> circuit" where
  "deref h c = \<lparr>qubits = ref_qubits c, gates = map h (gate_refs c), title = ref_title c\<rparr>"

text \<open>\<^verbatim>\<open>"%d" % n\<close> for a natural number: its decimal digits.\<close>

fun string_of_nat :: "nat \<Rightarrow> string" where
  "string_of_nat n =
     (if n < 10 then [''0123456789'' ! n]
      else string_of_nat (n div 10) @ [''0123456789'' ! (n mod 10)])"

declare string_of_nat.simps [simp del]

text \<open>
  The dictionary \<^verbatim>\<open>dependencies\<close>, its keys in insertion order.
  \<^verbatim>\<open>dependencies[k] |= s\<close> raises when the key is missing.
\<close>

type_synonym dependencies = "(nat \<times> nat set) list"

definition ior :: "dependencies \<Rightarrow> nat \<Rightarrow> nat set \<Rightarrow> error + dependencies" where
  "ior d k s = (case map_of d k of
                  None \<Rightarrow> Inl KeyError
                | Some v \<Rightarrow> Inr (AList.update k (v \<union> s) d))"

text \<open>The loop over \<^verbatim>\<open>zip(gts[:-1], gts[1:])\<close>, and the loop over the qubits around it.\<close>

fun add_edges :: "dependencies \<Rightarrow> (nat \<times> nat) list \<Rightarrow> error + dependencies" where
  "add_edges d [] = Inr d"
| "add_edges d ((g1, g2) # ps) =
     (case ior d g2 {g1} of Inl e \<Rightarrow> Inl e | Inr d' \<Rightarrow> add_edges d' ps)"

fun add_chains ::
  "(nat \<Rightarrow> gate) \<Rightarrow> (nat \<times> nat) list \<Rightarrow> dependencies \<Rightarrow> qubit list \<Rightarrow> error + dependencies" where
  "add_chains h all_gates d [] = Inr d"
| "add_chains h all_gates d (b # bs) =
     (let gts = map fst (filter (\<lambda>(n, r). involves_qubit (h r) (name b)) all_gates)
      in case add_edges d (zip (butlast gts) (tl gts)) of
           Inl e \<Rightarrow> Inl e
         | Inr d' \<Rightarrow> add_chains h all_gates d' bs)"

text \<open>
  The loop \<^verbatim>\<open>all_gates[i][1].annotation = "%d" % n\<close>: each step writes into the gate
  object that the \<open>i\<close>-th entry of the sorted list refers to, so an object that is
  referred to more than once keeps what was written last. An index beyond the list raises.
\<close>

fun annotate :: "(nat \<Rightarrow> gate) \<Rightarrow> nat list \<Rightarrow> (nat \<times> nat) list \<Rightarrow> error + (nat \<Rightarrow> gate)" where
  "annotate h sorted_gates [] = Inr h"
| "annotate h sorted_gates ((n, i) # rest) =
     (if i < length sorted_gates
      then annotate
             (h(sorted_gates ! i := (h (sorted_gates ! i))\<lparr>annotation := Some (string_of_nat n)\<rparr>))
             sorted_gates rest
      else Inl IndexError)"

text \<open>The loop that collects \<^verbatim>\<open>new_order\<close>, a list of references.\<close>

fun collect :: "nat list \<Rightarrow> nat list \<Rightarrow> error + nat list" where
  "collect sorted_gates [] = Inr []"
| "collect sorted_gates (i # is) =
     (if i < length sorted_gates
      then (case collect sorted_gates is of
              Inl e \<Rightarrow> Inl e
            | Inr new_order \<Rightarrow> Inr (sorted_gates ! i # new_order))
      else Inl IndexError)"

text \<open>
  \<^verbatim>\<open>Circuit.order()\<close>, returning the store and the circuit after the call. The scheduler
  \<^verbatim>\<open>tp.greedy_toposort\<close> is outside the repository and is a parameter: it takes the
  dependencies and the set of measurement indices and returns a list of indices.
\<close>

definition order ::
  "(dependencies \<Rightarrow> nat set \<Rightarrow> nat list) \<Rightarrow> (nat \<Rightarrow> gate) \<Rightarrow> circuit_refs
   \<Rightarrow> error + (nat \<Rightarrow> gate) \<times> circuit_refs" where
  "order greedy_toposort h c =
     (let sorted_gates = sort_key (\<lambda>r. time (h r)) (gate_refs c);
          all_gates = enumerate 0 sorted_gates;
          measurements = map fst (filter (\<lambda>(n, r). is_measurement (h r)) all_gates);
          dependencies = map (\<lambda>(n, r). (n, {})) all_gates
      in case add_chains h all_gates dependencies (ref_qubits c) of
           Inl e \<Rightarrow> Inl e
         | Inr deps \<Rightarrow>
             (let ord = greedy_toposort deps (set measurements)
              in case annotate h sorted_gates (enumerate 0 ord) of
                   Inl e \<Rightarrow> Inl e
                 | Inr h' \<Rightarrow>
                     (case collect sorted_gates ord of
                        Inl e \<Rightarrow> Inl e
                      | Inr new_order \<Rightarrow> Inr (h', c\<lparr>gate_refs := new_order\<rparr>))))"

section \<open>What the ordering is to pass to the scheduler, and to leave behind\<close>

text \<open>
  These definitions follow the specification's words. In the gates sorted by time, the
  gate at index \<open>m\<close> comes right before the gate at index \<open>n\<close> on the qubit \<open>q\<close> when
  both involve \<open>q\<close>, \<open>m\<close> is earlier, and no gate between them involves \<open>q\<close>. The
  predecessors of \<open>n\<close> are the gates right before it on some qubit of the circuit; the
  dependency graph gives every index its predecessors; the delay-preferred set holds the
  indices of the measurements. \<open>chain\<close> lists the indices of the gates on a qubit.
\<close>

definition consecutive_on :: "gate list \<Rightarrow> string \<Rightarrow> nat \<Rightarrow> nat \<Rightarrow> bool" where
  "consecutive_on gs q m n =
     (m < n \<and> n < length gs \<and> involves_qubit (gs ! m) q \<and> involves_qubit (gs ! n) q
      \<and> (\<forall>k \<in> set [Suc m..<n]. \<not> involves_qubit (gs ! k) q))"

definition predecessors :: "circuit \<Rightarrow> nat \<Rightarrow> nat set" where
  "predecessors c n =
     {m \<in> set [0..<n]. \<exists>b \<in> set (qubits c). consecutive_on (sort_key time (gates c)) (name b) m n}"

definition dependency_graph :: "circuit \<Rightarrow> dependencies" where
  "dependency_graph c = map (\<lambda>n. (n, predecessors c n)) [0..<length (gates c)]"

definition measurement_indices :: "circuit \<Rightarrow> nat set" where
  "measurement_indices c =
     {n \<in> set [0..<length (gates c)]. is_measurement (sort_key time (gates c) ! n)}"

definition chain :: "gate list \<Rightarrow> string \<Rightarrow> nat list" where
  "chain gs q = filter (\<lambda>n. involves_qubit (gs ! n) q) [0..<length gs]"

text \<open>
  The references of the gates sorted by time, taken in the order \<open>ord\<close> that the scheduler
  returned: the circuit's new list of gates.
\<close>

definition scheduled :: "(nat \<Rightarrow> gate) \<Rightarrow> circuit_refs \<Rightarrow> nat list \<Rightarrow> nat list" where
  "scheduled h c ord = map (\<lambda>i. sort_key (\<lambda>r. time (h r)) (gate_refs c) ! i) ord"

text \<open>
  The last place at which a list of references holds the reference \<open>r\<close>; and the store in
  which every gate object that a list refers to is annotated with the decimal numeral of
  its last place in the list, all else as it was.
\<close>

definition last_place :: "nat list \<Rightarrow> nat \<Rightarrow> nat" where
  "last_place rs r = last (filter (\<lambda>n. rs ! n = r) [0..<length rs])"

definition relabelled :: "(nat \<Rightarrow> gate) \<Rightarrow> nat list \<Rightarrow> nat \<Rightarrow> gate" where
  "relabelled h rs r =
     (if r \<in> set rs then (h r)\<lparr>annotation := Some (string_of_nat (last_place rs r))\<rparr> else h r)"

text \<open>
  Examples for the ordering. In the first, three gate objects: two gates on \<open>a\<close> at 10 and
  0 and a measurement of \<open>b\<close> at 5. In the second, one gate object that is in the circuit
  twice. The scheduler of the examples puts the delay-preferred indices last.
\<close>

definition deferral_heap :: "nat \<Rightarrow> gate" where
  "deferral_heap r =
     (if r = 0 then Hadamard_init ''a'' 10
      else if r = 1 then
        \<lparr>is_measurement = True, time = 5, involved_qubits = [''b''], annotation = None,
         method_name = None, method_params = [], cls = Measurement (selection_loop 1) []\<rparr>
      else Hadamard_init ''a'' 0)"

definition deferral_example :: circuit_refs where
  "deferral_example =
     \<lparr>ref_qubits = [Qubit ''a'' 1000 1000, Qubit ''b'' 1000 1000],
      gate_refs = [0, 1, 2], ref_title = ''deferral''\<rparr>"

definition shared_example :: circuit_refs where
  "shared_example =
     \<lparr>ref_qubits = [Qubit ''a'' 1000 1000], gate_refs = [0, 0], ref_title = ''shared''\<rparr>"

definition shared_heap :: "nat \<Rightarrow> gate" where
  "shared_heap r = Hadamard_init ''a'' 0"

definition measurements_last :: "dependencies \<Rightarrow> nat set \<Rightarrow> nat list" where
  "measurements_last deps delayed =
     filter (\<lambda>n. n \<notin> delayed) (map fst deps) @ filter (\<lambda>n. n \<in> delayed) (map fst deps)"

section \<open>Sampler properties\<close>

lemma prime_selection_sampler: "prime (selection_sampler result) = Inr (selection_loop result)"
  by (simp add: prime_def)

lemma prime_uniform_sampler: "prime (uniform_sampler mt seed) = Inr (uniform_loop (RandomState mt seed))"
  by (simp add: prime_def)

lemma prime_uniform_noisy_sampler:
  "prime (uniform_noisy_sampler mt e seed) = Inr (uniform_noisy_loop e (RandomState mt seed))"
  by (simp add: prime_def)

lemma send_all_selection_loop:
  "send_all (selection_loop result) ps = map (\<lambda>p. Inr (Some (result, result, 1))) ps"
  by (induction ps) simp_all

text \<open>
  Claim C9. The fixed-selection sampler, created with the constant \<open>result\<close> and primed,
  answers every pair \<open>(p0, p1)\<close> with exactly \<open>(result, result, 1)\<close>: a single call does,
  it leaves the sampler as it was, and so does every call of a sequence.
\<close>

theorem selection_sampler_fixed:
  "prime (selection_sampler result) = Inr (selection_loop result)
   \<and> resume (selection_loop result) (Some (p0, p1))
       = Inr (Some (result, result, 1), selection_loop result)
   \<and> send_all (selection_loop result) ps = map (\<lambda>p. Inr (Some (result, result, 1))) ps"
  by (simp add: prime_selection_sampler send_all_selection_loop)

lemma send_all_exhausted: "send_all exhausted ps = map (\<lambda>p. Inl StopIteration) ps"
  by (induction ps) simp_all

lemma send_all_uniform_loop:
  assumes "\<forall>(p0, p1) \<in> set ps. p0 + p1 > 0"
  shows "send_all (uniform_loop \<lparr>stream = f, pos = n\<rparr>) ps
         = map (\<lambda>(k, (p0, p1)). Inr (Some (if f k < p0 / (p0 + p1) then (0, 0, 1) else (1, 1, 1))))
             (enumerate n ps)"
  using assms
proof (induction ps arbitrary: n)
  case Nil
  show ?case by simp
next
  case (Cons p ps)
  obtain p0 p1 where p: "p = (p0, p1)" by (cases p)
  from Cons.prems p have pos: "p0 + p1 > 0" and rest: "\<forall>(p0, p1) \<in> set ps. p0 + p1 > 0"
    by auto
  from pos have nz: "p0 + p1 \<noteq> 0" by simp
  show ?case
    using nz by (simp add: p random_sample_def Cons.IH [OF rest])
qed

lemma send_all_uniform_loop_cong:
  assumes "\<forall>k < length ps. f1 (n + k) = f2 (n + k)"
  shows "send_all (uniform_loop \<lparr>stream = f1, pos = n\<rparr>) ps
         = send_all (uniform_loop \<lparr>stream = f2, pos = n\<rparr>) ps"
  using assms
proof (induction ps arbitrary: n)
  case Nil
  show ?case by simp
next
  case (Cons p ps)
  obtain p0 p1 where p: "p = (p0, p1)" by (cases p)
  from Cons.prems have here: "f1 n = f2 n" by force
  have "\<forall>k < length ps. f1 (Suc n + k) = f2 (Suc n + k)"
  proof (intro allI impI)
    fix k assume "k < length ps"
    then have "Suc k < length (p # ps)" by simp
    with Cons.prems have "f1 (n + Suc k) = f2 (n + Suc k)" by blast
    then show "f1 (Suc n + k) = f2 (Suc n + k)" by simp
  qed
  then have IH: "send_all (uniform_loop \<lparr>stream = f1, pos = Suc n\<rparr>) ps
      = send_all (uniform_loop \<lparr>stream = f2, pos = Suc n\<rparr>) ps"
    by (rule Cons.IH)
  show ?case
    by (simp add: p random_sample_def here IH)
qed

text \<open>
  Claim C7. The unbiased sampler created with \<open>seed\<close> and primed, driven by pairs
  \<open>(p0, p1)\<close> with \<open>p0 + p1 > 0\<close>: its \<open>k\<close>-th answer uses the \<open>k\<close>-th number \<open>r\<close> of the
  stream of \<open>seed\<close>; the outcome is \<open>0\<close> when \<open>r < p0 / (p0 + p1)\<close> and \<open>1\<close> otherwise, the
  declared outcome is the drawn one, and the weight is \<open>1\<close>.
\<close>

theorem uniform_sampler_unbiased:
  assumes "\<forall>(p0, p1) \<in> set ps. p0 + p1 > 0"
  shows "prime (uniform_sampler mt seed) = Inr (uniform_loop (RandomState mt seed))
    \<and> send_all (uniform_loop (RandomState mt seed)) ps
       = map (\<lambda>(k, (p0, p1)).
               Inr (Some (if mt seed k < p0 / (p0 + p1) then (0, 0, 1) else (1, 1, 1))))
           (enumerate 0 ps)"
  using send_all_uniform_loop [OF assms, of "mt seed" 0]
  by (simp add: prime_uniform_sampler RandomState_def)

theorem uniform_sampler_unbiased_witness:
  "send_all (uniform_loop (RandomState (\<lambda>seed k. if k = 0 then 1 / 4 else 3 / 4) 42))
      [(1, 1), (1, 1), (3, 1)]
   = [Inr (Some (0, 0, 1)), Inr (Some (1, 1, 1)), Inr (Some (1, 1, 1))]"
  using uniform_sampler_unbiased
    [of "[(1, 1), (1, 1), (3, 1)]" "\<lambda>seed k. if k = 0 then 1 / 4 else 3 / 4" 42]
  by simp

text \<open>
  Claim C8. Two unbiased samplers created with the same seed and primed, in two runs in
  each of which numpy gives that seed the same stream (on the draws that are made), and
  sent the same pairs, return or raise the same at every call: what a sampler answers is
  fixed by the stream of its seed and the pairs it is sent.
\<close>

theorem uniform_sampler_reproducible:
  assumes "prime (uniform_sampler mt1 seed) = Inr s1"
    and "prime (uniform_sampler mt2 seed) = Inr s2"
    and "\<forall>k < length ps. mt1 seed k = mt2 seed k"
  shows "send_all s1 ps = send_all s2 ps"
proof -
  from assms(1) have s1: "s1 = uniform_loop \<lparr>stream = mt1 seed, pos = 0\<rparr>"
    by (simp add: prime_uniform_sampler RandomState_def)
  from assms(2) have s2: "s2 = uniform_loop \<lparr>stream = mt2 seed, pos = 0\<rparr>"
    by (simp add: prime_uniform_sampler RandomState_def)
  from assms(3) have "\<forall>k < length ps. mt1 seed (0 + k) = mt2 seed (0 + k)" by simp
  then show ?thesis
    unfolding s1 s2 by (rule send_all_uniform_loop_cong)
qed

theorem uniform_sampler_reproducible_witness:
  "send_all (uniform_loop (RandomState (\<lambda>seed k. if k < 2 then 1 / 4 else 0) 7)) [(1, 1), (0, 0)]
   = send_all (uniform_loop (RandomState (\<lambda>seed k. if k < 2 then 1 / 4 else 1) 7)) [(1, 1), (0, 0)]"
  using uniform_sampler_reproducible
    [of "\<lambda>seed k. if k < 2 then 1 / 4 else 0" 7
        "uniform_loop (RandomState (\<lambda>seed k. if k < 2 then 1 / 4 else 0) 7)"
        "\<lambda>seed k. if k < 2 then 1 / 4 else 1"
        "uniform_loop (RandomState (\<lambda>seed k. if k < 2 then 1 / 4 else 1) 7)"
        "[(1, 1), (0, 0)]"]
  by (simp add: prime_uniform_sampler)

text \<open>
  Claim C1. The noisy-readout sampler yields \<^verbatim>\<open>proj, decl, prob\<close>: the true outcome comes
  first and the declared one second, while \<^verbatim>\<open>Measurement.apply_to\<close> and the docstring of
  \<^verbatim>\<open>Measurement.__init__\<close> read a sampler's answer as \<^verbatim>\<open>declare, project, rel_prob\<close>.
  With readout error \<open>0.96\<close>, first draws \<open>0.3745...\<close> and \<open>0.9507...\<close> and the pair
  \<open>(1, 1)\<close>, the true outcome is \<open>0\<close> and the declaration is flipped to \<open>1\<close>, and the
  sampler answers \<open>(0, 1, 0.96)\<close>: the first component is the true outcome, not the
  declared one.
\<close>

theorem uniform_noisy_sampler_yields_projected_first:
  "prime (uniform_noisy_sampler (\<lambda>seed k. if k = 0 then 3745401188 / 10 ^ 10 else 9507143064 / 10 ^ 10)
            (24 / 25) 42)
     = Inr (uniform_noisy_loop (24 / 25)
             (RandomState (\<lambda>seed k. if k = 0 then 3745401188 / 10 ^ 10 else 9507143064 / 10 ^ 10) 42))
   \<and> map_sum id fst
       (resume (uniform_noisy_loop (24 / 25)
             (RandomState (\<lambda>seed k. if k = 0 then 3745401188 / 10 ^ 10 else 9507143064 / 10 ^ 10) 42))
          (Some (1, 1)))
     = Inr (Some (0, 1, 24 / 25))"
  by (simp add: prime_uniform_noisy_sampler RandomState_def random_sample_def)

section \<open>Measurement properties\<close>

text \<open>
  Claim C2. A measurement gate on qubit \<open>qb\<close> with sampler \<open>s\<close> and history \<open>ms\<close>, applied
  to a state \<open>st\<close>: when the peek on \<open>qb\<close> gives \<open>(p0, p1)\<close> and the sampler, sent
  \<open>(p0, p1)\<close>, answers \<open>(declared, projected, weight)\<close>, the call returns the gate with
  \<open>declared\<close> appended to its history (and the sampler in its next state, nothing else
  changed) and the state projected on \<open>projected\<close> for \<open>qb\<close>, its classical probability
  multiplied by \<open>weight\<close>. The peek itself changes nothing: the projection is applied to
  the state as it was given.
\<close>

theorem Measurement_apply_to_contract:
  assumes "cls g = Measurement s ms"
    and "involved_qubits g = qb # rest"
    and "peak st qb = (p0, p1)"
    and "resume s (Some (p0, p1)) = Inr (Some (declared, projected, weight), s')"
  shows "Measurement_apply_to peak project g st
    = Inr (g\<lparr>cls := Measurement s' (ms @ [declared])\<rparr>,
           (project st qb projected)
             \<lparr>classical_probability :=
                classical_probability (project st qb projected) * weight\<rparr>)"
  using assms by (simp add: Measurement_apply_to_def Let_def)

theorem Measurement_apply_to_contract_witness:
  "Measurement_apply_to (\<lambda>st qb. (1, 3))
     (\<lambda>st qb outcome. st\<lparr>classical_probability := classical_probability st + of_int outcome\<rparr>)
     \<lparr>is_measurement = True, time = 20, involved_qubits = [''a''], annotation = None,
      method_name = None, method_params = [],
      cls = Measurement (uniform_noisy_loop (1 / 4) \<lparr>stream = (\<lambda>k. 1 / 8), pos = 0\<rparr>) [7]\<rparr>
     \<lparr>classical_probability = 1 / 2\<rparr>
   = Inr (\<lparr>is_measurement = True, time = 20, involved_qubits = [''a''], annotation = None,
           method_name = None, method_params = [],
           cls = Measurement (uniform_noisy_loop (1 / 4) \<lparr>stream = (\<lambda>k. 1 / 8), pos = Suc (Suc 0)\<rparr>) [7, 0]\<rparr>,
          \<lparr>classical_probability = 3 / 8\<rparr>)"
  using Measurement_apply_to_contract
    [of "\<lparr>is_measurement = True, time = 20, involved_qubits = [''a''], annotation = None,
         method_name = None, method_params = [],
         cls = Measurement (uniform_noisy_loop (1 / 4) \<lparr>stream = (\<lambda>k. 1 / 8), pos = 0\<rparr>) [7]\<rparr>"
        "uniform_noisy_loop (1 / 4) \<lparr>stream = (\<lambda>k. 1 / 8), pos = 0\<rparr>" "[7]" "''a''" "[]"
        "\<lambda>st qb. (1, 3)" "\<lparr>classical_probability = 1 / 2\<rparr>" 1 3 0 1 "1 / 4"
        "uniform_noisy_loop (1 / 4) \<lparr>stream = (\<lambda>k. 1 / 8), pos = Suc (Suc 0)\<rparr>"
        "\<lambda>st qb outcome. st\<lparr>classical_probability := classical_probability st + of_int outcome\<rparr>"]
  by (simp add: random_sample_def)

lemma Measurement_apply_to_sync:
  assumes "cls g1 = cls g2"
    and "involved_qubits g1 = qb1 # rest1"
    and "involved_qubits g2 = qb2 # rest2"
    and "peak1 st1 qb1 = peak2 st2 qb2"
  shows "(\<exists>e. Measurement_apply_to peak1 project1 g1 st1 = Inl e
              \<and> Measurement_apply_to peak2 project2 g2 st2 = Inl e)
       \<or> (\<exists>g1' st1' g2' st2'.
              Measurement_apply_to peak1 project1 g1 st1 = Inr (g1', st1')
            \<and> Measurement_apply_to peak2 project2 g2 st2 = Inr (g2', st2')
            \<and> cls g1' = cls g2'
            \<and> involved_qubits g1' = involved_qubits g1
            \<and> involved_qubits g2' = involved_qubits g2)"
proof -
  obtain p0 p1 where pk: "peak2 st2 qb2 = (p0, p1)" by (cases "peak2 st2 qb2")
  show ?thesis
  proof (cases "cls g2")
    case (Measurement s ms)
    show ?thesis
    proof (cases "resume s (Some (p0, p1))")
      case (Inl e)
      then show ?thesis
        using assms pk Measurement by (simp add: Measurement_apply_to_def)
    next
      case (Inr r)
      obtain y s' where r: "r = (y, s')" by (cases r)
      show ?thesis
      proof (cases y)
        case None
        then show ?thesis
          using assms pk Measurement Inr r by (simp add: Measurement_apply_to_def)
      next
        case (Some tr)
        obtain d pr w where tr: "tr = (d, pr, w)" by (cases tr)
        show ?thesis
          using assms pk Measurement Inr r Some tr
          by (simp add: Measurement_apply_to_def Let_def)
      qed
    qed
  qed (use assms pk in \<open>simp_all add: Measurement_apply_to_def\<close>)
qed

lemma Measurement_apply_each_sync:
  assumes "map (\<lambda>st. peak1 st qb1) sts1 = map (\<lambda>st. peak2 st qb2) sts2"
    and "cls g1 = cls g2"
    and "involved_qubits g1 = qb1 # rest1"
    and "involved_qubits g2 = qb2 # rest2"
  shows "map_sum id (\<lambda>r. cls (fst r)) (Measurement_apply_each peak1 project1 g1 sts1)
       = map_sum id (\<lambda>r. cls (fst r)) (Measurement_apply_each peak2 project2 g2 sts2)"
proof -
  from assms(1) have "length sts1 = length sts2"
    by (metis length_map)
  then show ?thesis
    using assms
  proof (induction sts1 sts2 arbitrary: g1 g2 rule: list_induct2)
    case Nil
    then show ?case by simp
  next
    case (Cons st1 sts1 st2 sts2)
    from Cons.prems(1) have pk: "peak1 st1 qb1 = peak2 st2 qb2"
      and tl: "map (\<lambda>st. peak1 st qb1) sts1 = map (\<lambda>st. peak2 st qb2) sts2"
      by simp_all
    have "(\<exists>e. Measurement_apply_to peak1 project1 g1 st1 = Inl e
              \<and> Measurement_apply_to peak2 project2 g2 st2 = Inl e)
       \<or> (\<exists>g1' st1' g2' st2'.
              Measurement_apply_to peak1 project1 g1 st1 = Inr (g1', st1')
            \<and> Measurement_apply_to peak2 project2 g2 st2 = Inr (g2', st2')
            \<and> cls g1' = cls g2'
            \<and> involved_qubits g1' = involved_qubits g1
            \<and> involved_qubits g2' = involved_qubits g2)"
      using Cons.prems(2) Cons.prems(3) Cons.prems(4) pk by (rule Measurement_apply_to_sync)
    then consider
      (err) e where "Measurement_apply_to peak1 project1 g1 st1 = Inl e"
        "Measurement_apply_to peak2 project2 g2 st2 = Inl e"
    | (ok) g1' st1' g2' st2' where
        "Measurement_apply_to peak1 project1 g1 st1 = Inr (g1', st1')"
        "Measurement_apply_to peak2 project2 g2 st2 = Inr (g2', st2')"
        "cls g1' = cls g2'"
        "involved_qubits g1' = involved_qubits g1"
        "involved_qubits g2' = involved_qubits g2"
      by blast
    then show ?case
    proof cases
      case err
      then show ?thesis by simp
    next
      case ok
      have "map_sum id (\<lambda>r. cls (fst r)) (Measurement_apply_each peak1 project1 g1' sts1)
          = map_sum id (\<lambda>r. cls (fst r)) (Measurement_apply_each peak2 project2 g2' sts2)"
        using tl ok(3) ok(4) ok(5) Cons.prems(3) Cons.prems(4)
        by (intro Cons.IH) simp_all
      then show ?thesis
        using ok(1) ok(2)
        by (cases "Measurement_apply_each peak1 project1 g1' sts1";
            cases "Measurement_apply_each peak2 project2 g2' sts2")
           (auto split: prod.splits)
    qed
  qed
qed

text \<open>
  Claim C10, as the code has it. A measurement constructed with \<^verbatim>\<open>None\<close> as its sampler
  holds the unbiased sampler created with seed 42 and primed. Two such measurements (on
  any qubits, at any times), each applied to a sequence of states of any engine, whose
  peeks return the same pairs in the same order, end with the same history of declared
  outcomes, or raise the same exception. The sampler cannot be omitted: the parameter has
  no default, and the call with a qubit and a time alone raises \<^verbatim>\<open>TypeError\<close>.
\<close>

theorem Measurement_default_sampler:
  assumes "Measurement_init mt qb1 time1 None = Inr g1"
    and "Measurement_init mt qb2 time2 None = Inr g2"
    and "map (\<lambda>st. peak1 st qb1) sts1 = map (\<lambda>st. peak2 st qb2) sts2"
  shows "construct mt Measurement_class [Str qb1, Num time1, PyNone]
       = Measurement_init mt qb1 time1 None
     \<and> Measurement_init mt qb1 time1 None
       = map_sum id
           (\<lambda>s. \<lparr>is_measurement = True, time = time1, involved_qubits = [qb1],
                 annotation = None, method_name = None, method_params = [],
                 cls = Measurement s []\<rparr>)
           (prime (uniform_sampler mt 42))
     \<and> map_sum id (\<lambda>r. measurements (cls (fst r)))
         (Measurement_apply_each peak1 project1 g1 sts1)
       = map_sum id (\<lambda>r. measurements (cls (fst r)))
         (Measurement_apply_each peak2 project2 g2 sts2)
     \<and> construct mt Measurement_class [Str qb1, Num time1] = Inl TypeError"
proof -
  have call: "construct mt Measurement_class [Str qb1, Num time1, PyNone]
       = Measurement_init mt qb1 time1 None"
    by (simp add: construct_def arity_def)
  have omitted: "construct mt Measurement_class [Str qb1, Num time1] = Inl TypeError"
    by (simp add: construct_def arity_def)
  have init: "Measurement_init mt qb1 time1 None
       = map_sum id
           (\<lambda>s. \<lparr>is_measurement = True, time = time1, involved_qubits = [qb1],
                 annotation = None, method_name = None, method_params = [],
                 cls = Measurement s []\<rparr>)
           (prime (uniform_sampler mt 42))"
    by (simp add: Measurement_init_def prime_uniform_sampler)
  from assms(1) have g1: "cls g1 = Measurement (uniform_loop (RandomState mt 42)) []"
    "involved_qubits g1 = qb1 # []"
    by (auto simp: Measurement_init_def prime_uniform_sampler)
  from assms(2) have g2: "cls g2 = Measurement (uniform_loop (RandomState mt 42)) []"
    "involved_qubits g2 = qb2 # []"
    by (auto simp: Measurement_init_def prime_uniform_sampler)
  have "map_sum id (\<lambda>r. cls (fst r)) (Measurement_apply_each peak1 project1 g1 sts1)
      = map_sum id (\<lambda>r. cls (fst r)) (Measurement_apply_each peak2 project2 g2 sts2)"
    using assms(3) g1 g2 by (intro Measurement_apply_each_sync) simp_all
  then have hist: "map_sum id (\<lambda>r. measurements (cls (fst r)))
         (Measurement_apply_each peak1 project1 g1 sts1)
       = map_sum id (\<lambda>r. measurements (cls (fst r)))
         (Measurement_apply_each peak2 project2 g2 sts2)"
    by (cases "Measurement_apply_each peak1 project1 g1 sts1";
        cases "Measurement_apply_each peak2 project2 g2 sts2") simp_all
  from call init hist omitted show ?thesis by (intro conjI)
qed

theorem Measurement_default_sampler_witness:
  "map_sum id (\<lambda>r. measurements (cls (fst r)))
     (Measurement_apply_each (\<lambda>st qb. (1, 1)) (\<lambda>st qb outcome. st)
        \<lparr>is_measurement = True, time = 20, involved_qubits = [''a''], annotation = None,
         method_name = None, method_params = [],
         cls = Measurement
                 (uniform_loop (RandomState (\<lambda>seed k. if k = 0 then 1 / 4 else 3 / 4) 42)) []\<rparr>
        [\<lparr>classical_probability = 1\<rparr>, \<lparr>classical_probability = 1\<rparr>])
   = map_sum id (\<lambda>r. measurements (cls (fst r)))
     (Measurement_apply_each (\<lambda>st qb. (1, 1)) (\<lambda>st qb outcome. st)
        \<lparr>is_measurement = True, time = 30, involved_qubits = [''b''], annotation = None,
         method_name = None, method_params = [],
         cls = Measurement
                 (uniform_loop (RandomState (\<lambda>seed k. if k = 0 then 1 / 4 else 3 / 4) 42)) []\<rparr>
        [\<lparr>classical_probability = 1 / 2\<rparr>, \<lparr>classical_probability = 1 / 3\<rparr>])"
  using Measurement_default_sampler
    [of "\<lambda>seed k. if k = 0 then 1 / 4 else 3 / 4" "''a''" 20
        "\<lparr>is_measurement = True, time = 20, involved_qubits = [''a''], annotation = None,
         method_name = None, method_params = [],
         cls = Measurement
                 (uniform_loop (RandomState (\<lambda>seed k. if k = 0 then 1 / 4 else 3 / 4) 42)) []\<rparr>"
        "''b''" 30
        "\<lparr>is_measurement = True, time = 30, involved_qubits = [''b''], annotation = None,
         method_name = None, method_params = [],
         cls = Measurement
                 (uniform_loop (RandomState (\<lambda>seed k. if k = 0 then 1 / 4 else 3 / 4) 42)) []\<rparr>"
        "\<lambda>st qb. (1, 1)" "[\<lparr>classical_probability = 1\<rparr>, \<lparr>classical_probability = 1\<rparr>]"
        "\<lambda>st qb. (1, 1)" "[\<lparr>classical_probability = 1 / 2\<rparr>, \<lparr>classical_probability = 1 / 3\<rparr>]"
        "\<lambda>st qb outcome. st" "\<lambda>st qb outcome. st"]
  by (simp add: Measurement_init_def prime_uniform_sampler)

text \<open>
  Claim C10, as it is stated, fails where the sampler is omitted: the call
  \<^verbatim>\<open>Measurement("a", 20)\<close>, directly or through \<^verbatim>\<open>add_gate\<close>, raises \<^verbatim>\<open>TypeError\<close> and
  makes no measurement, where the call with \<^verbatim>\<open>None\<close> makes one.
\<close>

theorem Measurement_sampler_omitted:
  "construct (fixed_stream 0) Measurement_class [Str ''a'', Num 20] = Inl TypeError
   \<and> add_gate (fixed_stream 0) (Circuit ''Unnamed circuit'') (Class Measurement_class)
         [Str ''a'', Num 20] = Inl TypeError
   \<and> add_gate (fixed_stream 0) (Circuit ''Unnamed circuit'') (Kind ''measurement'')
         [Str ''a'', Num 20] = Inl TypeError
   \<and> construct (fixed_stream 0) Measurement_class [Str ''a'', Num 20]
       \<noteq> construct (fixed_stream 0) Measurement_class [Str ''a'', Num 20, PyNone]"
  by (simp add: construct_def arity_def add_gate_def gate_classes_def Measurement_init_def
      prime_uniform_sampler)

section \<open>Circuit construction\<close>

text \<open>
  Claim C6, as the code has it. Adding a gate by a kind string that is not in the
  registry fails with the \<^verbatim>\<open>KeyError\<close> of the registry lookup, whatever the circuit and
  the other arguments; no gate is constructed or added.
\<close>

theorem add_gate_unknown_kind:
  assumes "gate_classes k = None"
  shows "add_gate mt c (Kind k) args = Inl KeyError"
  using assms by (simp add: add_gate_def)

theorem add_gate_unknown_kind_witness:
  "add_gate (fixed_stream 0) (Circuit ''Unnamed circuit'') (Kind ''toffoli'') [Str ''a'', Num 0]
   = Inl KeyError"
  using add_gate_unknown_kind
    [of "''toffoli''" "fixed_stream 0" "Circuit ''Unnamed circuit''" "[Str ''a'', Num 0]"]
  by (simp add: gate_classes_def)

text \<open>
  Claim C6, as the specification states it, fails: the kind \<^verbatim>\<open>toffoli\<close> is not in the
  registry, and adding it does not fail with a \<^verbatim>\<open>ConfigurationError\<close>.
\<close>

theorem add_gate_unknown_kind_not_ConfigurationError:
  "gate_classes ''toffoli'' = None
   \<and> add_gate (fixed_stream 0) (Circuit ''Unnamed circuit'') (Kind ''toffoli'') [Str ''a'', Num 0]
       \<noteq> Inl ConfigurationError"
  by (simp add: add_gate_def gate_classes_def)

section \<open>Idle-interval synthesis: what is appended\<close>

lemma coherent_Qubit: "coherent (Qubit n a b)"
  by (simp add: coherent_def Qubit_def max_def)

lemma add_damping_ok:
  assumes "coherent b"
  shows "add_damping c b t d = Inr (c\<lparr>gates := gates c @ [damping_gate b t d]\<rparr>)"
  using assms
  by (simp add: add_damping_def AmpPhDamp_init_def coherent_def add_gate_instance_def
      return_last_def damping_gate_def split: list.splits)

lemma add_between_ok:
  assumes "coherent b"
  shows "add_between c b ps
    = Inr (c\<lparr>gates := gates c @
              map (\<lambda>(g1, g2). damping_gate b ((time g1 + time g2) / 2) (time g2 - time g1)) ps\<rparr>)"
proof (induction ps arbitrary: c)
  case Nil
  show ?case by simp
next
  case (Cons p ps)
  obtain g1 g2 where p: "p = (g1, g2)" by (cases p)
  show ?case
    by (simp add: p add_damping_ok [OF assms] Cons.IH)
qed

lemma zip_butlast_tl:
  "zip (butlast xs) (tl xs) = map (\<lambda>i. (xs ! i, xs ! Suc i)) [0..<length xs - 1]"
  by (rule nth_equalityI) (simp_all add: nth_butlast nth_tl)

lemma between_channels:
  "map (\<lambda>(g1, g2). damping_gate b ((time g1 + time g2) / 2) (time g2 - time g1))
       (zip (butlast gts) (tl gts))
   = map (\<lambda>i. channel b (map time gts ! i) (map time gts ! Suc i)) [0..<length (map time gts) - 1]"
  by (simp add: zip_butlast_tl channel_def)

lemma add_waiting_qubit_ok:
  assumes "coherent b"
  shows "add_waiting_qubit (sort_key time gs) lo hi c b
    = Inr (c\<lparr>gates := gates c @ idle_channels gs lo hi b\<rparr>)"
proof -
  let ?gts = "filter (\<lambda>g. involves_qubit g (name b) \<and> lo \<le> time g \<and> time g \<le> hi) (sort_key time gs)"
  show ?thesis
  proof (cases "?gts = []")
    case True
    then show ?thesis
      by (simp add: add_waiting_qubit_def idle_channels_def window_times_def
          add_damping_ok [OF assms] channel_def add.commute)
  next
    case False
    then show ?thesis
      by (simp add: add_waiting_qubit_def idle_channels_def window_times_def Let_def
          add_damping_ok [OF assms] add_between_ok [OF assms] between_channels
          channel_def add.commute hd_map last_map)
  qed
qed

lemma add_waiting_loop_ok:
  assumes "\<forall>b \<in> set bs. coherent b"
  shows "add_waiting_loop (sort_key time gs) lo hi c bs
    = Inr (c\<lparr>gates := gates c @ concat (map (idle_channels gs lo hi) bs)\<rparr>)"
  using assms
proof (induction bs arbitrary: c)
  case Nil
  show ?case by simp
next
  case (Cons b bs)
  then show ?case
    by (simp add: add_waiting_qubit_ok)
qed

lemma sorted_hd_Min:
  fixes xs :: "real list"
  assumes "sorted xs" "xs \<noteq> []"
  shows "hd xs = Min (set xs)"
  using assms by (cases xs) (auto intro!: Min_eqI [symmetric])

lemma sorted_last_Max:
  fixes xs :: "real list"
  assumes "sorted xs" "xs \<noteq> []"
  shows "last xs = Max (set xs)"
proof -
  have "\<forall>x \<in> set xs. x \<le> last xs"
    using assms by (induction xs) (auto)
  then show ?thesis
    using assms(2) by (auto intro!: Max_eqI [symmetric])
qed

lemma hd_sort_key_time:
  assumes "gs \<noteq> []"
  shows "time (hd (sort_key time gs)) = Min (time ` set gs)"
proof -
  have ne: "sort_key time gs \<noteq> []" using assms by (metis length_sort length_0_conv)
  have "time (hd (sort_key time gs)) = hd (map time (sort_key time gs))"
    using ne by (simp add: hd_map)
  also have "\<dots> = Min (set (map time (sort_key time gs)))"
    using ne by (intro sorted_hd_Min) simp_all
  finally show ?thesis by simp
qed

lemma last_sort_key_time:
  assumes "gs \<noteq> []"
  shows "time (last (sort_key time gs)) = Max (time ` set gs)"
proof -
  have ne: "sort_key time gs \<noteq> []" using assms by (metis length_sort length_0_conv)
  have "time (last (sort_key time gs)) = last (map time (sort_key time gs))"
    using ne by (simp add: last_map)
  also have "\<dots> = Max (set (map time (sort_key time gs)))"
    using ne by (intro sorted_last_Max) simp_all
  finally show ?thesis by simp
qed

lemma add_waiting_gates_eq:
  assumes "\<forall>b \<in> set (qubits c). coherent b"
  shows "add_waiting_gates c tmin tmax
    = (if gates c = [] \<and> (tmin = None \<or> tmax = None) then Inr c
       else Inr (c\<lparr>gates := gates c @
                 concat (map (idle_channels (gates c) (default_tmin c tmin) (default_tmax c tmax))
                          (qubits c))\<rparr>))"
proof (cases "gates c = []")
  case True
  then show ?thesis
    using assms
    by (cases tmin; cases tmax)
       (simp_all add: add_waiting_gates_def default_tmin_def default_tmax_def
          add_waiting_loop_ok [of _ "[]", simplified])
next
  case False
  then have ne: "sort_key time (gates c) \<noteq> []" by (metis length_sort length_0_conv)
  then obtain g gs' where sk: "sort_key time (gates c) = g # gs'" by (cases "sort_key time (gates c)") auto
  have hd: "time g = Min (time ` set (gates c))"
    using hd_sort_key_time [OF False] sk by simp
  have la: "time (last (g # gs')) = Max (time ` set (gates c))"
    using last_sort_key_time [OF False] sk by simp
  have loop: "\<And>lo hi. add_waiting_loop (g # gs') lo hi c (qubits c)
    = Inr (c\<lparr>gates := gates c @ concat (map (idle_channels (gates c) lo hi) (qubits c))\<rparr>)"
    using add_waiting_loop_ok [OF assms, of "gates c"] sk by simp
  show ?thesis
    using False
    by (cases tmin; cases tmax)
       (simp_all add: add_waiting_gates_def Let_def sk default_tmin_def default_tmax_def
          hd la loop del: last.simps)
qed

text \<open>
  Claim C4. For a circuit whose qubits have coherence times other than zero, idle-interval
  synthesis returns the circuit unchanged when it has no gates and a window bound is
  omitted. Otherwise an omitted lower (upper) bound is the least (greatest) timestamp of
  the gates, and the gates appended are, qubit by qubit in the order of the circuit's
  qubits: for a qubit with no operation in the window, one channel centered at the window
  midpoint with duration \<open>tmax - tmin\<close>; else a channel over the initial gap when it
  exceeds \<open>1e-6\<close>, a channel over the final gap when it exceeds \<open>1e-6\<close>, and a channel for
  every two consecutive operations of the qubit in the window, each centered at the
  midpoint of its gap with the gap as its duration.
\<close>

theorem add_waiting_gates_synthesis:
  assumes "\<forall>b \<in> set (qubits c). coherent b"
  shows "add_waiting_gates c tmin tmax
    = (if gates c = [] \<and> (tmin = None \<or> tmax = None) then Inr c
       else Inr (c\<lparr>gates := gates c @
                 concat (map (idle_channels (gates c) (default_tmin c tmin) (default_tmax c tmax))
                          (qubits c))\<rparr>))"
  using assms by (rule add_waiting_gates_eq)

lemma ex_coherent: "\<forall>b \<in> set (qubits example_circuit). coherent b"
  by (simp add: example_circuit_def coherent_Qubit)

theorem add_waiting_gates_synthesis_witness:
  "add_waiting_gates example_circuit None None
   = Inr (example_circuit\<lparr>gates := gates example_circuit @
        [channel (Qubit ''a'' 1000 1000) 0 10, channel (Qubit ''a'' 1000 1000) 10 20,
         channel (Qubit ''b'' 1000 1000) 0 10, channel (Qubit ''b'' 1000 1000) 10 20]\<rparr>)"
  using add_waiting_gates_synthesis [OF ex_coherent, of None None]
  by (simp add: example_circuit_def default_tmin_def default_tmax_def
      idle_channels_def window_times_def involves_qubit_def Hadamard_init_def CPhase_init_def
      Qubit_def)

section \<open>Idle-interval synthesis: no idle gap, no overlap\<close>























section \<open>Ordering: what the scheduler is given, and what is done with its answer\<close>

lemma string_of_nat_digit: "n < 10 \<Longrightarrow> string_of_nat n = [''0123456789'' ! n]"
  by (simp add: string_of_nat.simps [of n])

lemma enumerate_nth: "enumerate 0 xs = map (\<lambda>n. (n, xs ! n)) [0..<length xs]"
proof -
  have "enumerate 0 xs = enumerate 0 (map (\<lambda>n. xs ! n) [0..<length xs])"
    by (simp add: map_nth)
  also have "\<dots> = map (\<lambda>n. (n, xs ! n)) [0..<length xs]"
    by (rule enumerate_map_upt)
  finally show ?thesis .
qed

lemma indices_filter_enumerate:
  "map fst (filter (\<lambda>(n, r). P (h r)) (enumerate 0 rs))
   = filter (\<lambda>n. P (map h rs ! n)) [0..<length rs]"
proof -
  have "map fst (filter (\<lambda>(n, r). P (h r)) (enumerate 0 rs))
      = filter (\<lambda>n. P (h (rs ! n))) [0..<length rs]"
    by (simp add: enumerate_nth filter_map o_def)
  also have "\<dots> = filter (\<lambda>n. P (map h rs ! n)) [0..<length rs]"
    by (rule filter_cong) simp_all
  finally show ?thesis .
qed

lemma insort_key_map:
  "map h (insort_key (\<lambda>r. f (h r)) x xs) = insort_key f (h x) (map h xs)"
  by (induction xs) simp_all

lemma sort_key_map: "map h (sort_key (\<lambda>r. f (h r)) xs) = sort_key f (map h xs)"
  by (induction xs) (simp_all add: insort_key_map)

lemma map_of_tabulate:
  "map_of (map (\<lambda>n. (n, f n)) xs) k = (if k \<in> set xs then Some (f k) else None)"
  by (induction xs) auto

lemma update_tabulate:
  assumes "distinct xs" and "k \<in> set xs"
  shows "AList.update k v (map (\<lambda>n. (n, f n)) xs) = map (\<lambda>n. (n, (f(k := v)) n)) xs"
  using assms
proof (induction xs)
  case Nil
  then show ?case by simp
next
  case (Cons a xs)
  show ?case
  proof (cases "a = k")
    case True
    with Cons.prems have "k \<notin> set xs" by simp
    then have "map (\<lambda>n. (n, f n)) xs = map (\<lambda>n. (n, (f(k := v)) n)) xs"
      by (intro map_cong) auto
    with True show ?thesis by simp
  next
    case False
    with Cons show ?thesis by simp
  qed
qed

lemma ior_tabulate:
  assumes "k < N"
  shows "ior (map (\<lambda>n. (n, f n)) [0..<N]) k s
       = Inr (map (\<lambda>n. (n, (f(k := f k \<union> s)) n)) [0..<N])"
  using assms by (simp add: ior_def map_of_tabulate update_tabulate)

lemma add_edges_tabulate:
  assumes "\<forall>(g1, g2) \<in> set ps. g2 < N"
  shows "add_edges (map (\<lambda>n. (n, f n)) [0..<N]) ps
       = Inr (map (\<lambda>n. (n, f n \<union> {g1. (g1, n) \<in> set ps})) [0..<N])"
  using assms
proof (induction ps arbitrary: f)
  case Nil
  show ?case by simp
next
  case (Cons p ps)
  obtain g1 g2 where p: "p = (g1, g2)" by (cases p)
  from Cons.prems p have g2: "g2 < N" and rest: "\<forall>(g1, g2) \<in> set ps. g2 < N" by auto
  have "add_edges (map (\<lambda>n. (n, f n)) [0..<N]) (p # ps)
      = add_edges (map (\<lambda>n. (n, (f(g2 := f g2 \<union> {g1})) n)) [0..<N]) ps"
    by (simp add: p ior_tabulate [OF g2])
  also have "\<dots> = Inr (map (\<lambda>n. (n, (f(g2 := f g2 \<union> {g1})) n \<union> {g. (g, n) \<in> set ps})) [0..<N])"
    by (rule Cons.IH [OF rest])
  also have "map (\<lambda>n. (n, (f(g2 := f g2 \<union> {g1})) n \<union> {g. (g, n) \<in> set ps})) [0..<N]
      = map (\<lambda>n. (n, f n \<union> {g. (g, n) \<in> set (p # ps)})) [0..<N]"
    by (intro map_cong) (auto simp: p)
  finally show ?case .
qed

lemma chain_bound: "n \<in> set (chain gs q) \<Longrightarrow> n < length gs"
  by (simp add: chain_def)

lemma chain_pairs_bound:
  "\<forall>(g1, g2) \<in> set (zip (butlast (chain gs q)) (tl (chain gs q))). g2 < length gs"
proof -
  have "g2 < length gs" if "(g1, g2) \<in> set (zip (butlast (chain gs q)) (tl (chain gs q)))" for g1 g2
  proof -
    from that have "g2 \<in> set (tl (chain gs q))" by (rule set_zip_rightD)
    then have "g2 \<in> set (chain gs q)" by (cases "chain gs q") simp_all
    then show ?thesis by (rule chain_bound)
  qed
  then show ?thesis by auto
qed

lemma add_chains_tabulate:
  "add_chains h (enumerate 0 rs) (map (\<lambda>n. (n, f n)) [0..<length rs]) bs
   = Inr (map (\<lambda>n. (n, f n \<union> {g1. \<exists>b \<in> set bs.
             (g1, n) \<in> set (zip (butlast (chain (map h rs) (name b)))
                               (tl (chain (map h rs) (name b))))}))
           [0..<length rs])"
proof (induction bs arbitrary: f)
  case Nil
  show ?case by simp
next
  case (Cons b bs)
  let ?gs = "map h rs"
  let ?ps = "zip (butlast (chain ?gs (name b))) (tl (chain ?gs (name b)))"
  have gts: "map fst (filter (\<lambda>(n, r). involves_qubit (h r) (name b)) (enumerate 0 rs))
      = chain ?gs (name b)"
    using indices_filter_enumerate [of "\<lambda>g. involves_qubit g (name b)" h rs]
    by (simp add: chain_def)
  have bound: "\<forall>(g1, g2) \<in> set ?ps. g2 < length rs"
    using chain_pairs_bound [of ?gs "name b"] by simp
  have "add_chains h (enumerate 0 rs) (map (\<lambda>n. (n, f n)) [0..<length rs]) (b # bs)
      = add_chains h (enumerate 0 rs)
          (map (\<lambda>n. (n, f n \<union> {g1. (g1, n) \<in> set ?ps})) [0..<length rs]) bs"
    by (simp add: gts Let_def add_edges_tabulate [OF bound])
  also have "\<dots> = Inr (map (\<lambda>n. (n, (f n \<union> {g1. (g1, n) \<in> set ?ps}) \<union> {g1. \<exists>b \<in> set bs.
             (g1, n) \<in> set (zip (butlast (chain ?gs (name b))) (tl (chain ?gs (name b))))}))
           [0..<length rs])"
    by (rule Cons.IH)
  also have "map (\<lambda>n. (n, (f n \<union> {g1. (g1, n) \<in> set ?ps}) \<union> {g1. \<exists>b \<in> set bs.
             (g1, n) \<in> set (zip (butlast (chain ?gs (name b))) (tl (chain ?gs (name b))))}))
           [0..<length rs]
      = map (\<lambda>n. (n, f n \<union> {g1. \<exists>b' \<in> set (b # bs).
             (g1, n) \<in> set (zip (butlast (chain ?gs (name b'))) (tl (chain ?gs (name b'))))}))
           [0..<length rs]"
    by (intro map_cong) auto
  finally show ?case .
qed

lemma zip_butlast_tl_snoc:
  assumes "xs \<noteq> []"
  shows "zip (butlast (xs @ [x])) (tl (xs @ [x])) = zip (butlast xs) (tl xs) @ [(last xs, x)]"
proof -
  have "zip (butlast (xs @ [x])) (tl (xs @ [x])) = zip xs (tl xs @ [x])"
    using assms by (simp add: butlast_append)
  also have "\<dots> = zip (butlast xs @ [last xs]) (tl xs @ [x])"
    using assms by simp
  also have "\<dots> = zip (butlast xs) (tl xs) @ zip [last xs] [x]"
    by (rule zip_append) simp
  finally show ?thesis by simp
qed

lemma last_filter_upt:
  assumes "filter P [0..<N] \<noteq> []"
  shows "P (last (filter P [0..<N])) \<and> last (filter P [0..<N]) < N
       \<and> (\<forall>k. last (filter P [0..<N]) < k \<and> k < N \<longrightarrow> \<not> P k)"
  using assms
proof (induction N)
  case 0
  then show ?case by simp
next
  case (Suc N)
  show ?case
  proof (cases "P N")
    case True
    then have la: "last (filter P [0..<Suc N]) = N" by simp
    have "\<not> P k" if "N < k" "k < Suc N" for k
      using that by linarith
    then show ?thesis
      unfolding la using True by blast
  next
    case False
    then have eq: "filter P [0..<Suc N] = filter P [0..<N]" by simp
    with Suc.prems have ne: "filter P [0..<N] \<noteq> []" by simp
    let ?l = "last (filter P [0..<N])"
    from Suc.IH [OF ne] have l: "P ?l" "?l < N" and after: "\<And>k. ?l < k \<Longrightarrow> k < N \<Longrightarrow> \<not> P k"
      by blast+
    have later: "\<not> P k" if "?l < k" "k < Suc N" for k
    proof (cases "k = N")
      case True
      with False show ?thesis by simp
    next
      case False
      with that have "k < N" by linarith
      with that(1) show ?thesis by (rule after)
    qed
    from l(2) have "?l < Suc N" by linarith
    with l(1) later show ?thesis
      unfolding eq by blast
  qed
qed

lemma consecutive_pairs:
  "(m, n) \<in> set (zip (butlast (filter P [0..<N])) (tl (filter P [0..<N])))
   \<longleftrightarrow> m < n \<and> n < N \<and> P m \<and> P n \<and> (\<forall>k. m < k \<and> k < n \<longrightarrow> \<not> P k)"
proof (induction N arbitrary: m n)
  case 0
  show ?case by simp
next
  case (Suc N)
  define xs where "xs = filter P [0..<N]"
  define gapless where "gapless = (\<forall>k. m < k \<and> k < n \<longrightarrow> \<not> P k)"
  have IH: "(m, n) \<in> set (zip (butlast xs) (tl xs)) \<longleftrightarrow> m < n \<and> n < N \<and> P m \<and> P n \<and> gapless"
    unfolding xs_def gapless_def by (rule Suc.IH)
  have goal: "(m, n) \<in> set (zip (butlast (filter P [0..<Suc N])) (tl (filter P [0..<Suc N])))
      \<longleftrightarrow> m < n \<and> n < Suc N \<and> P m \<and> P n \<and> gapless"
  proof (cases "P N")
    case False
    then have eq: "filter P [0..<Suc N] = xs" by (simp add: xs_def)
    have "(n < Suc N \<and> P n) \<longleftrightarrow> (n < N \<and> P n)"
      using False by (cases "n = N") auto
    then show ?thesis
      unfolding eq IH by blast
  next
    case True
    then have eq: "filter P [0..<Suc N] = xs @ [N]" by (simp add: xs_def)
    show ?thesis
    proof (cases "xs = []")
      case True
      have none: "\<not> P j" if "j < N" for j
        using True that by (auto simp: xs_def filter_empty_conv)
      have "\<not> (m < n \<and> n < Suc N \<and> P m)"
      proof
        assume a: "m < n \<and> n < Suc N \<and> P m"
        then have "m < N" by linarith
        then have "\<not> P m" by (rule none)
        with a show False by blast
      qed
      moreover have "(m, n) \<notin> set (zip (butlast (filter P [0..<Suc N])) (tl (filter P [0..<Suc N])))"
        unfolding eq True by simp
      ultimately show ?thesis by blast
    next
      case False
      define l where "l = last xs"
      from last_filter_upt [of P N] False
      have l: "P l" "l < N" and after: "\<And>k. l < k \<Longrightarrow> k < N \<Longrightarrow> \<not> P k"
        unfolding xs_def l_def by blast+
      have split: "set (zip (butlast (filter P [0..<Suc N])) (tl (filter P [0..<Suc N])))
          = insert (l, N) (set (zip (butlast xs) (tl xs)))"
        unfolding eq l_def zip_butlast_tl_snoc [OF False] by simp
      show ?thesis
      proof (cases "n = N")
        case nN: True
        have notin: "(m, N) \<notin> set (zip (butlast xs) (tl xs))"
          using IH nN by simp
        have "m = l \<longleftrightarrow> m < N \<and> P m \<and> gapless"
        proof
          assume "m = l"
          with l after show "m < N \<and> P m \<and> gapless"
            unfolding gapless_def nN by blast
        next
          assume r: "m < N \<and> P m \<and> gapless"
          show "m = l"
          proof (rule ccontr)
            assume "m \<noteq> l"
            then consider "m < l" | "l < m" by linarith
            then show False
            proof cases
              case 1
              from r have "\<not> P l" if "m < l" "l < N"
                using that unfolding gapless_def nN by blast
              with 1 l show False by blast
            next
              case 2
              from r have "m < N" "P m" by blast+
              with 2 after show False by blast
            qed
          qed
        qed
        then show ?thesis
          unfolding split using notin nN True by auto
      next
        case nN: False
        then have "(n < Suc N) \<longleftrightarrow> (n < N)" by linarith
        moreover have "(m, n) \<in> insert (l, N) (set (zip (butlast xs) (tl xs)))
            \<longleftrightarrow> (m, n) \<in> set (zip (butlast xs) (tl xs))"
          using nN by simp
        ultimately show ?thesis
          unfolding split IH by simp
      qed
    qed
  qed
  then show ?case unfolding gapless_def .
qed

lemma chain_pairs_consecutive:
  "(m, n) \<in> set (zip (butlast (chain gs q)) (tl (chain gs q))) \<longleftrightarrow> consecutive_on gs q m n"
  unfolding chain_def consecutive_pairs consecutive_on_def by auto

lemma places_Cons:
  "filter (\<lambda>n. (a # rs) ! n = r) [0..<length (a # rs)]
   = (if a = r then [0] else []) @ map Suc (filter (\<lambda>n. rs ! n = r) [0..<length rs])"
proof -
  have "[0..<Suc (length rs)] = 0 # [Suc 0..<Suc (length rs)]"
    by (rule upt_conv_Cons) simp
  moreover have "length (a # rs) = Suc (length rs)" by simp
  ultimately have "[0..<length (a # rs)] = 0 # map Suc [0..<length rs]"
    by (simp only: map_Suc_upt)
  then show ?thesis
    by (simp add: filter_map o_def)
qed

lemma last_place_Cons_in:
  assumes "r \<in> set rs"
  shows "last_place (a # rs) r = Suc (last_place rs r)"
proof -
  from assms obtain n where "n < length rs" "rs ! n = r"
    by (auto simp: in_set_conv_nth)
  then have ne: "filter (\<lambda>n. rs ! n = r) [0..<length rs] \<noteq> []"
    by (auto simp: filter_empty_conv)
  show ?thesis
    unfolding last_place_def places_Cons using ne by (simp add: last_map)
qed

lemma last_place_Cons_notin:
  assumes "r \<notin> set rs"
  shows "last_place (r # rs) r = 0"
proof -
  from assms have "filter (\<lambda>n. rs ! n = r) [0..<length rs] = []"
    by (auto simp: filter_empty_conv)
  then show ?thesis
    unfolding last_place_def places_Cons by simp
qed

lemma annotate_from:
  assumes "\<forall>i \<in> set ord. i < length rs"
  shows "annotate h rs (enumerate k ord)
       = Inr (\<lambda>r. if r \<in> set (map (\<lambda>i. rs ! i) ord)
                  then (h r)\<lparr>annotation :=
                          Some (string_of_nat (k + last_place (map (\<lambda>i. rs ! i) ord) r))\<rparr>
                  else h r)"
  using assms
proof (induction ord arbitrary: h k)
  case Nil
  show ?case by simp
next
  case (Cons i ord)
  let ?new = "map (\<lambda>i. rs ! i) ord"
  let ?h1 = "h(rs ! i := (h (rs ! i))\<lparr>annotation := Some (string_of_nat k)\<rparr>)"
  from Cons.prems have i: "i < length rs" and rest: "\<forall>i \<in> set ord. i < length rs"
    by simp_all
  have "annotate h rs (enumerate k (i # ord)) = annotate ?h1 rs (enumerate (Suc k) ord)"
    using i by simp
  also have "\<dots> = Inr (\<lambda>r. if r \<in> set ?new
                  then (?h1 r)\<lparr>annotation := Some (string_of_nat (Suc k + last_place ?new r))\<rparr>
                  else ?h1 r)"
    by (rule Cons.IH [OF rest])
  also have "(\<lambda>r. if r \<in> set ?new
                  then (?h1 r)\<lparr>annotation := Some (string_of_nat (Suc k + last_place ?new r))\<rparr>
                  else ?h1 r)
      = (\<lambda>r. if r \<in> set (map (\<lambda>i. rs ! i) (i # ord))
                  then (h r)\<lparr>annotation :=
                          Some (string_of_nat (k + last_place (map (\<lambda>i. rs ! i) (i # ord)) r))\<rparr>
                  else h r)"
  proof
    fix r
    show "(if r \<in> set ?new
                  then (?h1 r)\<lparr>annotation := Some (string_of_nat (Suc k + last_place ?new r))\<rparr>
                  else ?h1 r)
      = (if r \<in> set (map (\<lambda>i. rs ! i) (i # ord))
                  then (h r)\<lparr>annotation :=
                          Some (string_of_nat (k + last_place (map (\<lambda>i. rs ! i) (i # ord)) r))\<rparr>
                  else h r)"
    proof (cases "r \<in> set ?new")
      case True
      then have "last_place (map (\<lambda>i. rs ! i) (i # ord)) r = Suc (last_place ?new r)"
        by (simp add: last_place_Cons_in)
      with True show ?thesis by simp
    next
      case False
      show ?thesis
      proof (cases "r = rs ! i")
        case True
        with False have "last_place (map (\<lambda>i. rs ! i) (i # ord)) r = 0"
          by (simp add: last_place_Cons_notin)
        with False True show ?thesis by simp
      next
        case ne: False
        with False show ?thesis by simp
      qed
    qed
  qed
  finally show ?case .
qed

lemma annotate_relabelled:
  assumes "\<forall>i \<in> set ord. i < length rs"
  shows "annotate h rs (enumerate 0 ord) = Inr (relabelled h (map (\<lambda>i. rs ! i) ord))"
proof -
  have "relabelled h (map (\<lambda>i. rs ! i) ord)
      = (\<lambda>r. if r \<in> set (map (\<lambda>i. rs ! i) ord)
                  then (h r)\<lparr>annotation :=
                          Some (string_of_nat (0 + last_place (map (\<lambda>i. rs ! i) ord) r))\<rparr>
                  else h r)"
    by (rule ext) (simp add: relabelled_def)
  with annotate_from [OF assms, of h 0] show ?thesis by simp
qed

lemma collect_ok:
  assumes "\<forall>i \<in> set ord. i < length rs"
  shows "collect rs ord = Inr (map (\<lambda>i. rs ! i) ord)"
  using assms by (induction ord) simp_all

lemma initial_dependencies:
  "map (\<lambda>(n, r). (n, {})) (enumerate 0 rs) = map (\<lambda>n. (n, {})) [0..<length rs]"
  by (simp add: enumerate_nth)

lemma sorted_gates_deref:
  "map h (sort_key (\<lambda>r. time (h r)) (gate_refs c)) = sort_key time (gates (deref h c))"
  by (simp add: sort_key_map deref_def)

lemma dependencies_built:
  "add_chains h (enumerate 0 (sort_key (\<lambda>r. time (h r)) (gate_refs c)))
     (map (\<lambda>(n, r). (n, {})) (enumerate 0 (sort_key (\<lambda>r. time (h r)) (gate_refs c))))
     (ref_qubits c)
   = Inr (dependency_graph (deref h c))"
proof -
  let ?rs = "sort_key (\<lambda>r. time (h r)) (gate_refs c)"
  let ?gs = "sort_key time (gates (deref h c))"
  have len: "length ?rs = length (gates (deref h c))" by (simp add: deref_def)
  have qs: "ref_qubits c = qubits (deref h c)" by (simp add: deref_def)
  have "add_chains h (enumerate 0 ?rs) (map (\<lambda>(n, r). (n, {})) (enumerate 0 ?rs)) (ref_qubits c)
      = Inr (map (\<lambda>n. (n, {} \<union> {g1. \<exists>b \<in> set (ref_qubits c).
             (g1, n) \<in> set (zip (butlast (chain (map h ?rs) (name b)))
                               (tl (chain (map h ?rs) (name b))))}))
           [0..<length ?rs])"
    unfolding initial_dependencies by (rule add_chains_tabulate)
  also have "map (\<lambda>n. (n, {} \<union> {g1. \<exists>b \<in> set (ref_qubits c).
             (g1, n) \<in> set (zip (butlast (chain (map h ?rs) (name b)))
                               (tl (chain (map h ?rs) (name b))))}))
           [0..<length ?rs] = dependency_graph (deref h c)"
    unfolding dependency_graph_def predecessors_def chain_pairs_consecutive sorted_gates_deref
      len qs
    by (auto simp: consecutive_on_def)
  finally show ?thesis .
qed

lemma measurements_built:
  "set (map fst (filter (\<lambda>(n, r). is_measurement (h r))
                   (enumerate 0 (sort_key (\<lambda>r. time (h r)) (gate_refs c)))))
   = measurement_indices (deref h c)"
proof -
  have "length (sort_key (\<lambda>r. time (h r)) (gate_refs c)) = length (gates (deref h c))"
    by (simp add: deref_def)
  then show ?thesis
    using indices_filter_enumerate [of is_measurement h "sort_key (\<lambda>r. time (h r)) (gate_refs c)"]
    by (simp add: measurement_indices_def sorted_gates_deref)
qed

lemma order_eq:
  assumes "greedy_toposort (dependency_graph (deref h c)) (measurement_indices (deref h c)) = ord"
    and "set ord \<subseteq> {..<length (gate_refs c)}"
  shows "order greedy_toposort h c
       = Inr (relabelled h (scheduled h c ord), c\<lparr>gate_refs := scheduled h c ord\<rparr>)"
proof -
  have b: "\<forall>i \<in> set ord. i < length (sort_key (\<lambda>r. time (h r)) (gate_refs c))"
    using assms(2) by auto
  show ?thesis
    unfolding order_def Let_def dependencies_built measurements_built
    by (simp add: assms(1) annotate_relabelled [OF b] collect_ok [OF b] scheduled_def)
qed

lemma filter_eq_index:
  assumes "k < m"
  shows "filter (\<lambda>n. n = k) [0..<m] = [k]"
  using assms
proof (induction m)
  case 0
  then show ?case by simp
next
  case (Suc m)
  show ?case
  proof (cases "k = m")
    case True
    have "filter (\<lambda>n. n = m) [0..<m] = []"
      by (auto simp: filter_empty_conv)
    with True show ?thesis by simp
  next
    case False
    with Suc.prems have "k < m" by linarith
    with Suc.IH False show ?thesis by simp
  qed
qed

lemma last_place_distinct:
  assumes "distinct rs" and "k < length rs"
  shows "last_place rs (rs ! k) = k"
proof -
  have "filter (\<lambda>n. rs ! n = rs ! k) [0..<length rs] = filter (\<lambda>n. n = k) [0..<length rs]"
    using assms by (intro filter_cong) (simp_all add: nth_eq_iff_index_eq)
  then show ?thesis
    using assms(2) by (simp add: last_place_def filter_eq_index)
qed

lemma distinct_scheduled:
  assumes "distinct (gate_refs c)" and "distinct ord" and "set ord \<subseteq> {..<length (gate_refs c)}"
  shows "distinct (scheduled h c ord)"
proof -
  let ?rs = "sort_key (\<lambda>r. time (h r)) (gate_refs c)"
  have d: "distinct ?rs" using assms(1) by simp
  have "inj_on (\<lambda>i. ?rs ! i) (set ord)"
  proof (rule inj_onI)
    fix i j assume "i \<in> set ord" "j \<in> set ord" "?rs ! i = ?rs ! j"
    moreover from this assms(3) have "i < length ?rs" "j < length ?rs"
      by auto
    ultimately show "i = j"
      using d by (simp add: nth_eq_iff_index_eq)
  qed
  with assms(2) show ?thesis
    by (simp add: scheduled_def distinct_map)
qed

lemma relabelled_values:
  assumes "distinct (gate_refs c)" and "distinct ord" and "set ord \<subseteq> {..<length (gate_refs c)}"
  shows "gates (deref (relabelled h (scheduled h c ord)) (c\<lparr>gate_refs := scheduled h c ord\<rparr>))
       = map (\<lambda>(n, i). (sort_key time (gates (deref h c)) ! i)
                          \<lparr>annotation := Some (string_of_nat n)\<rparr>)
           (enumerate 0 ord)"
proof (rule nth_equalityI)
  show "length (gates (deref (relabelled h (scheduled h c ord)) (c\<lparr>gate_refs := scheduled h c ord\<rparr>)))
      = length (map (\<lambda>(n, i). (sort_key time (gates (deref h c)) ! i)
                          \<lparr>annotation := Some (string_of_nat n)\<rparr>) (enumerate 0 ord))"
    by (simp add: deref_def scheduled_def)
next
  fix k
  assume "k < length (gates (deref (relabelled h (scheduled h c ord))
                        (c\<lparr>gate_refs := scheduled h c ord\<rparr>)))"
  then have k: "k < length ord" by (simp add: deref_def scheduled_def)
  let ?rs = "sort_key (\<lambda>r. time (h r)) (gate_refs c)"
  let ?new = "scheduled h c ord"
  have kn: "k < length ?new" using k by (simp add: scheduled_def)
  have i: "ord ! k < length ?rs" using assms(3) k by (auto simp: subset_iff)
  have new: "?new ! k = ?rs ! (ord ! k)" using k by (simp add: scheduled_def)
  have lp: "last_place ?new (?new ! k) = k"
    using distinct_scheduled [OF assms] kn by (rule last_place_distinct)
  have mem: "?new ! k \<in> set ?new" using kn by simp
  have "relabelled h ?new (?new ! k) = (h (?new ! k))\<lparr>annotation := Some (string_of_nat k)\<rparr>"
    using mem lp by (simp add: relabelled_def)
  also have "h (?new ! k) = sort_key time (gates (deref h c)) ! (ord ! k)"
    unfolding new using i sorted_gates_deref [of h c, symmetric] by simp
  finally show "gates (deref (relabelled h ?new) (c\<lparr>gate_refs := ?new\<rparr>)) ! k
      = map (\<lambda>(n, i). (sort_key time (gates (deref h c)) ! i)
                          \<lparr>annotation := Some (string_of_nat n)\<rparr>) (enumerate 0 ord) ! k"
    using k kn by (simp add: deref_def nth_enumerate_eq)
qed

lemma predecessors_earlier:
  assumes "m \<in> predecessors c n"
  shows "m < n \<and> time (sort_key time (gates c) ! m) \<le> time (sort_key time (gates c) ! n)"
proof -
  let ?gs = "sort_key time (gates c)"
  from assms have mn: "m < n" and n: "n < length ?gs"
    by (auto simp: predecessors_def consecutive_on_def)
  have "map time ?gs ! m \<le> map time ?gs ! n"
    using mn n by (intro sorted_nth_mono) (simp_all add: less_imp_le)
  with mn n show ?thesis by simp
qed

text \<open>
  Claim C3. \<open>order\<close> sorts the gates by time (stably: gates of equal time keep their
  order) and numbers them; it passes to the scheduler the dependency graph, in which every
  gate depends on the gate right before it on each of its qubits (an earlier gate, of
  smaller or equal time), and the set of the measurement indices. When the scheduler
  returns indices of gates, the circuit's gates become the sorted gates in the returned
  order, and every gate object among them is annotated with the decimal numeral of its
  last place in that order. When no gate object is in the circuit twice and the scheduler
  returns no index twice, that is the place of each gate: the gates by value are the
  sorted gates in the returned order, each annotated with its place.
\<close>

theorem order_schedules:
  assumes "greedy_toposort (dependency_graph (deref h c)) (measurement_indices (deref h c)) = ord"
    and "set ord \<subseteq> {..<length (gate_refs c)}"
  shows "order greedy_toposort h c
       = Inr (relabelled h (scheduled h c ord), c\<lparr>gate_refs := scheduled h c ord\<rparr>)
     \<and> (distinct (gate_refs c) \<and> distinct ord \<longrightarrow>
          gates (deref (relabelled h (scheduled h c ord)) (c\<lparr>gate_refs := scheduled h c ord\<rparr>))
          = map (\<lambda>(n, i). (sort_key time (gates (deref h c)) ! i)
                             \<lparr>annotation := Some (string_of_nat n)\<rparr>)
              (enumerate 0 ord))
     \<and> sorted (map time (sort_key time (gates (deref h c))))
     \<and> (\<forall>t. filter (\<lambda>g. time g = t) (sort_key time (gates (deref h c)))
            = filter (\<lambda>g. time g = t) (gates (deref h c)))
     \<and> (\<forall>n m. m \<in> predecessors (deref h c) n \<longrightarrow>
           m < n \<and> time (sort_key time (gates (deref h c)) ! m)
                    \<le> time (sort_key time (gates (deref h c)) ! n))"
proof -
  have "order greedy_toposort h c
       = Inr (relabelled h (scheduled h c ord), c\<lparr>gate_refs := scheduled h c ord\<rparr>)"
    using assms by (rule order_eq)
  moreover have "distinct (gate_refs c) \<and> distinct ord \<longrightarrow>
          gates (deref (relabelled h (scheduled h c ord)) (c\<lparr>gate_refs := scheduled h c ord\<rparr>))
          = map (\<lambda>(n, i). (sort_key time (gates (deref h c)) ! i)
                             \<lparr>annotation := Some (string_of_nat n)\<rparr>)
              (enumerate 0 ord)"
    using relabelled_values [OF _ _ assms(2)] by blast
  moreover have "\<forall>n m. m \<in> predecessors (deref h c) n \<longrightarrow>
           m < n \<and> time (sort_key time (gates (deref h c)) ! m)
                    \<le> time (sort_key time (gates (deref h c)) ! n)"
    using predecessors_earlier by blast
  ultimately show ?thesis
    by (simp add: sort_key_stable)
qed

lemma deferral_sorted:
  "sort_key time (gates (deref deferral_heap deferral_example))
   = [Hadamard_init ''a'' 0,
      \<lparr>is_measurement = True, time = 5, involved_qubits = [''b''], annotation = None,
       method_name = None, method_params = [], cls = Measurement (selection_loop 1) []\<rparr>,
      Hadamard_init ''a'' 10]"
  by (simp add: deref_def deferral_example_def deferral_heap_def Hadamard_init_def)

lemma deferral_length: "length (gates (deref deferral_heap deferral_example)) = 3"
  by (simp add: deref_def deferral_example_def)

lemma deferral_schedule:
  "measurements_last (dependency_graph (deref deferral_heap deferral_example))
     (measurement_indices (deref deferral_heap deferral_example))
   = [0, 2, 1]"
  unfolding measurements_last_def dependency_graph_def measurement_indices_def deferral_sorted
    deferral_length
  by (simp add: Hadamard_init_def upt_conv_Cons)

lemma deferral_graph:
  "dependency_graph (deref deferral_heap deferral_example) = [(0, {}), (1, {}), (2, {0})]"
  unfolding dependency_graph_def predecessors_def consecutive_on_def deferral_sorted
    deferral_length
  by (auto simp add: deref_def deferral_example_def Hadamard_init_def Qubit_def involves_qubit_def
      nth_Cons' upt_conv_Cons)

lemma shared_sorted:
  "sort_key time (gates (deref shared_heap shared_example))
   = [Hadamard_init ''a'' 0, Hadamard_init ''a'' 0]"
  by (simp add: deref_def shared_example_def shared_heap_def Hadamard_init_def)

lemma shared_length: "length (gates (deref shared_heap shared_example)) = 2"
  by (simp add: deref_def shared_example_def)

lemma shared_schedule:
  "measurements_last (dependency_graph (deref shared_heap shared_example))
     (measurement_indices (deref shared_heap shared_example))
   = [0, 1]"
  unfolding measurements_last_def dependency_graph_def measurement_indices_def shared_sorted
    shared_length
  by (simp add: Hadamard_init_def upt_conv_Cons)

theorem order_schedules_witness:
  "dependency_graph (deref deferral_heap deferral_example) = [(0, {}), (1, {}), (2, {0})]
   \<and> measurements_last (dependency_graph (deref deferral_heap deferral_example))
         (measurement_indices (deref deferral_heap deferral_example))
       = [0, 2, 1]
   \<and> map_sum id (\<lambda>(h', c'). gates (deref h' c'))
         (order measurements_last deferral_heap deferral_example)
       = Inr [(Hadamard_init ''a'' 0)\<lparr>annotation := Some ''0''\<rparr>,
              (Hadamard_init ''a'' 10)\<lparr>annotation := Some ''1''\<rparr>,
              \<lparr>is_measurement = True, time = 5, involved_qubits = [''b''],
               annotation = Some ''2'', method_name = None, method_params = [],
               cls = Measurement (selection_loop 1) []\<rparr>]
   \<and> map_sum id (\<lambda>(h', c'). map annotation (gates (deref h' c')))
         (order measurements_last shared_heap shared_example)
       = Inr [Some ''1'', Some ''1'']"
proof -
  have r1: "set [0, 2, 1] \<subseteq> {..<length (gate_refs deferral_example)}"
    by (simp add: deferral_example_def)
  have d1: "distinct (gate_refs deferral_example) \<and> distinct [0, 2, 1::nat]"
    by (simp add: deferral_example_def)
  note t1 = order_schedules [of measurements_last deferral_heap deferral_example "[0, 2, 1]",
      OF deferral_schedule r1]
  from t1 have run1: "order measurements_last deferral_heap deferral_example
      = Inr (relabelled deferral_heap (scheduled deferral_heap deferral_example [0, 2, 1]),
             deferral_example\<lparr>gate_refs := scheduled deferral_heap deferral_example [0, 2, 1]\<rparr>)"
    by blast
  from t1 d1 have val1:
    "gates (deref (relabelled deferral_heap (scheduled deferral_heap deferral_example [0, 2, 1]))
         (deferral_example\<lparr>gate_refs := scheduled deferral_heap deferral_example [0, 2, 1]\<rparr>))
     = map (\<lambda>(n, i). (sort_key time (gates (deref deferral_heap deferral_example)) ! i)
                        \<lparr>annotation := Some (string_of_nat n)\<rparr>)
         (enumerate 0 [0, 2, 1])"
    by blast
  have a: "map_sum id (\<lambda>(h', c'). gates (deref h' c'))
         (order measurements_last deferral_heap deferral_example)
       = Inr [(Hadamard_init ''a'' 0)\<lparr>annotation := Some ''0''\<rparr>,
              (Hadamard_init ''a'' 10)\<lparr>annotation := Some ''1''\<rparr>,
              \<lparr>is_measurement = True, time = 5, involved_qubits = [''b''],
               annotation = Some ''2'', method_name = None, method_params = [],
               cls = Measurement (selection_loop 1) []\<rparr>]"
    unfolding run1 using val1 by (simp add: deferral_sorted string_of_nat_digit)
  have r2: "set [0, 1] \<subseteq> {..<length (gate_refs shared_example)}"
    by (simp add: shared_example_def)
  from order_schedules [of measurements_last shared_heap shared_example "[0, 1]",
      OF shared_schedule r2]
  have run2: "order measurements_last shared_heap shared_example
      = Inr (relabelled shared_heap (scheduled shared_heap shared_example [0, 1]),
             shared_example\<lparr>gate_refs := scheduled shared_heap shared_example [0, 1]\<rparr>)"
    by blast
  have sch: "scheduled shared_heap shared_example [0, 1] = [0, 0]"
    by (simp add: scheduled_def shared_example_def shared_heap_def)
  have lp: "last_place [0, 0] 0 = 1"
    by (simp add: last_place_def upt_conv_Cons)
  have b: "map_sum id (\<lambda>(h', c'). map annotation (gates (deref h' c')))
         (order measurements_last shared_heap shared_example)
       = Inr [Some ''1'', Some ''1'']"
    unfolding run2 sch
    by (simp add: deref_def relabelled_def lp string_of_nat_digit)
  from deferral_graph deferral_schedule a b show ?thesis by blast
qed

end
